theory Spec2Isabelle
  imports Complex_Main "HOL-Library.Multiset"
begin

section \<open>Data model\<close>

text \<open>
  An image path is the string the program handles. A dictionary is an association
  list in insertion order with pairwise distinct keys, as a Python \<open>dict\<close> is: storing
  under a key that is present replaces the value in place, storing under a new key
  appends the entry at the end.
\<close>

type_synonym path = string

type_synonym ('k, 'v) dict = "('k \<times> 'v) list"

fun dict_store :: "'k \<Rightarrow> 'v \<Rightarrow> ('k, 'v) dict \<Rightarrow> ('k, 'v) dict" where
  "dict_store k v [] = [(k, v)]"
| "dict_store k v ((k', v') # d) =
     (if k' = k then (k, v) # d else (k', v') # dict_store k v d)"

section \<open>Exceptions\<close>

text \<open>
  The exceptions (all subclasses of \<open>Exception\<close>) that the modelled operations raise.
  A function that can raise returns \<open>Inl\<close> of the exception, or, when it also changes the
  file system, the pair of \<open>Some\<close> exception and the file system at the moment of the raise.
\<close>

datatype py_error =
    FileNotFoundError
  | PermissionError
  | FileExistsError
  | NotADirectoryError
  | OSError
  | ShutilError
  | ValueError
  | UnidentifiedImageError

section \<open>Path functions of \<open>os.path\<close> (POSIX)\<close>

definition basename :: "path \<Rightarrow> string" where
  "basename p = rev (takeWhile (\<lambda>c. c \<noteq> CHR ''/'') (rev p))"

definition path_join :: "path \<Rightarrow> string \<Rightarrow> path" where
  "path_join a b =
     (if b \<noteq> [] \<and> hd b = CHR ''/'' then b
      else if a = [] \<or> last a = CHR ''/'' then a @ b
      else a @ ''/'' @ b)"

text \<open>
  \<open>splitext\<close>: the extension starts at the last dot of the last path component, unless
  only dots (or nothing) stand before it in that component; then there is no extension.
\<close>

definition splitext :: "path \<Rightarrow> string \<times> string" where
  "splitext p =
     (let name = basename p;
          n = Suc (length (takeWhile (\<lambda>c. c \<noteq> CHR ''.'') (rev name)))
      in if CHR ''.'' \<in> set name \<and> (\<exists>c \<in> set (take (length name - n) name). c \<noteq> CHR ''.'')
         then (take (length p - n) p, drop (length p - n) p)
         else (p, []))"

text \<open>\<open>str(i)\<close> for a non-negative integer: its decimal digits.\<close>

definition digit_char :: "nat \<Rightarrow> char" where
  "digit_char d = char_of (48 + d)"

fun str_nat :: "nat \<Rightarrow> string" where
  "str_nat n = (if n < 10 then [digit_char n] else str_nat (n div 10) @ [digit_char (n mod 10)])"

declare str_nat.simps [simp del]

definition lower :: "string \<Rightarrow> string" where
  "lower s = map (\<lambda>c. if 65 \<le> (of_char c :: nat) \<and> (of_char c :: nat) \<le> 90
                        then char_of ((of_char c :: nat) + 32) else c) s"

definition endswith :: "string \<Rightarrow> string \<Rightarrow> bool" where
  "endswith s suffix_str = (length suffix_str \<le> length s \<and> drop (length s - length suffix_str) s = suffix_str)"

section \<open>Discovery: \<open>find_images\<close>\<close>

definition FORMATS :: "string list" where
  "FORMATS = [''.jpg'', ''.jpeg'', ''.png'', ''.bmp'', ''.gif'', ''.tiff'', ''.webp'']"

text \<open>
  \<open>os_walk\<close> is the directory walk of the operating system: for a folder, the list of
  \<open>(root, dirs, files)\<close> triples in the order \<open>os.walk\<close> yields them.
\<close>

definition find_images :: "(path \<Rightarrow> (path \<times> string list \<times> string list) list) \<Rightarrow> path \<Rightarrow> path list" where
  "find_images os_walk folder_path =
     concat (map (\<lambda>(root, dirs, files).
                    map (path_join root)
                      [filename \<leftarrow> files. \<exists>fmt \<in> set FORMATS. endswith (lower filename) fmt])
                 (os_walk folder_path))"

section \<open>Progress display: \<open>print_progress_bar\<close>\<close>

text \<open>
  One call of \<open>print_progress_bar\<close> writes one line; the model keeps the bar, the two
  counters and the ETA argument of each call. \<open>print_progress_bar\<close> shows the ETA as
  it is given, so its type \<open>'e\<close> is a parameter here; the hashing loop computes it from
  clock readings (\<open>remaining\<close> below). The done fraction
  \<open>current / total\<close> is taken as an exact quotient; at \<open>current = total\<close>, where the
  theorems below evaluate it, floating-point division gives the same value 1.
\<close>

record 'e progress_line =
  bar :: string
  shown_current :: nat
  shown_total :: nat
  shown_eta :: "'e option"

definition fraction :: "nat \<Rightarrow> nat \<Rightarrow> rat" where
  "fraction current total_n = (if total_n > 0 then of_nat current / of_nat total_n else 1)"

definition print_progress_bar :: "nat \<Rightarrow> nat \<Rightarrow> nat \<Rightarrow> 'e option \<Rightarrow> 'e progress_line" where
  "print_progress_bar current total_n width eta =
     (let done_width = nat \<lfloor>fraction current total_n * of_nat width\<rfloor>
      in \<lparr>bar = replicate done_width CHR ''#'' @ replicate (width - done_width) CHR ''-'',
          shown_current = current, shown_total = total_n, shown_eta = eta\<rparr>)"

section \<open>Fingerprinting: \<open>safe_compute_hash\<close> and the hashing loop\<close>

text \<open>
  \<open>phash_of\<close> stands for opening the image and computing its perceptual hash; it
  returns the hash or the exception raised on the way. \<open>safe_compute_hash\<close> catches
  every such exception and returns \<open>None\<close> in place of the hash.
\<close>

definition safe_compute_hash :: "(path \<Rightarrow> py_error + 'h) \<Rightarrow> path \<Rightarrow> path \<times> 'h option" where
  "safe_compute_hash phash_of image_path =
     (case phash_of image_path of
        Inr ph \<Rightarrow> (image_path, Some ph)
      | Inl e \<Rightarrow> (image_path, None))"

text \<open>\<open>executor.map\<close> yields the results of the calls in the order of its input.\<close>

definition executor_map :: "('a \<Rightarrow> 'b) \<Rightarrow> 'a list \<Rightarrow> 'b list" where
  "executor_map f xs = map f xs"

text \<open>
  The loop of \<open>compare_images\<close> over \<open>enumerate(results, start=1)\<close>: it stores the
  fingerprint under the path and prints the bar with the ETA computed at this turn,
  \<open>eta_at i\<close>, the value of \<open>remaining\<close> after lines 102 to 104 (given below from the
  readings of the clock).
\<close>

fun hash_loop :: "(nat \<Rightarrow> 'e) \<Rightarrow> nat \<Rightarrow> nat \<Rightarrow> (path \<times> 'h option) list
    \<Rightarrow> (path, 'h option) dict \<times> 'e progress_line list
    \<Rightarrow> (path, 'h option) dict \<times> 'e progress_line list" where
  "hash_loop eta_at n_images i [] st = st"
| "hash_loop eta_at n_images i ((img_path, ph) # rest) (hash_dict, out) =
     hash_loop eta_at n_images (Suc i) rest
       (dict_store img_path ph hash_dict,
        out @ [print_progress_bar i n_images 40 (Some (eta_at i))])"

definition fingerprint_phase :: "(path \<Rightarrow> py_error + 'h) \<Rightarrow> (nat \<Rightarrow> 'e) \<Rightarrow> path list
    \<Rightarrow> (path, 'h option) dict \<times> 'e progress_line list" where
  "fingerprint_phase phash_of eta_at images =
     hash_loop eta_at (length images) 1 (executor_map (safe_compute_hash phash_of) images) ([], [])"

text \<open>
  Lines 102 to 104 at turn \<open>i\<close>: \<open>start_time\<close> is the reading of \<open>time.time()\<close> in line
  97, \<open>clock i\<close> the reading in turn \<open>i\<close>. Floating-point numbers are taken as real
  numbers; the roundings of the three operations do not change the sign of the result.
  In the program the hashing loop runs with \<open>eta_at = remaining start_time clock n_images\<close>.
\<close>

definition remaining :: "real \<Rightarrow> (nat \<Rightarrow> real) \<Rightarrow> nat \<Rightarrow> nat \<Rightarrow> real" where
  "remaining start_time clock n_images i =
     (let elapsed = clock i - start_time;
          avg_time = elapsed / real i
      in avg_time * real_of_int (int n_images - int i))"

section \<open>Grouping: \<open>group_exact_duplicates\<close>\<close>

text \<open>
  \<open>mapping.setdefault(key, []).append(filepath)\<close>: the list stored under \<open>key\<close> grows
  at its end; a key seen for the first time is entered last with the one-element list.
\<close>

fun setdefault_append :: "string \<Rightarrow> path \<Rightarrow> (string, path list) dict \<Rightarrow> (string, path list) dict" where
  "setdefault_append key filepath [] = [(key, [filepath])]"
| "setdefault_append key filepath ((k, ps) # m) =
     (if k = key then (k, ps @ [filepath]) # m
      else (k, ps) # setdefault_append key filepath m)"

text \<open>
  One turn of the loop over \<open>hash_dict.items()\<close>. The fingerprint type \<open>'h\<close> is the
  hash object of the imaging library and \<open>str_of\<close> its \<open>str\<close>; \<open>None\<close> is a failed
  fingerprint and is skipped.
\<close>

fun group_step :: "('h \<Rightarrow> string) \<Rightarrow> (string, path list) dict \<Rightarrow> path \<times> 'h option \<Rightarrow> (string, path list) dict" where
  "group_step str_of mapping (filepath, None) = mapping"
| "group_step str_of mapping (filepath, Some ph) = setdefault_append (str_of ph) filepath mapping"

definition group_mapping :: "('h \<Rightarrow> string) \<Rightarrow> (path, 'h option) dict \<Rightarrow> (string, path list) dict" where
  "group_mapping str_of hash_dict = foldl (group_step str_of) [] hash_dict"

definition group_exact_duplicates :: "('h \<Rightarrow> string) \<Rightarrow> (path, 'h option) dict \<Rightarrow> path list list" where
  "group_exact_duplicates str_of hash_dict =
     [group \<leftarrow> map snd (group_mapping str_of hash_dict). length group > 1]"

subsection \<open>What the grouping computes\<close>

text \<open>
  \<open>keyed_paths str_of k d\<close> lists, in dictionary order, the paths of \<open>d\<close> whose
  fingerprint is present and has the string form \<open>k\<close>.
\<close>

definition keyed_paths :: "('h \<Rightarrow> string) \<Rightarrow> string \<Rightarrow> (path, 'h option) dict \<Rightarrow> path list" where
  "keyed_paths str_of k d = map fst (filter (\<lambda>(p, ph). map_option str_of ph = Some k) d)"

lemma keyed_paths_Nil [simp]: "keyed_paths str_of k [] = []"
  by (simp add: keyed_paths_def)

lemma keyed_paths_Cons_None [simp]: "keyed_paths str_of k ((p, None) # d) = keyed_paths str_of k d"
  by (simp add: keyed_paths_def)

lemma keyed_paths_Cons_Some [simp]:
  "keyed_paths str_of k ((p, Some h) # d) =
     (if str_of h = k then p # keyed_paths str_of k d else keyed_paths str_of k d)"
  by (simp add: keyed_paths_def)

lemma set_keyed_paths:
  "set (keyed_paths str_of k d) = {p. \<exists>h. (p, Some h) \<in> set d \<and> str_of h = k}"
  by (induction d) (auto simp: keyed_paths_def split: option.splits)

lemma distinct_keyed_paths:
  "distinct (map fst d) \<Longrightarrow> distinct (keyed_paths str_of k d)"
  unfolding keyed_paths_def by (simp add: distinct_map_filter)

lemma setdefault_append_keys:
  "map fst (setdefault_append k p m) = (if k \<in> fst ` set m then map fst m else map fst m @ [k])"
  by (induction m) (force+)

lemma setdefault_append_distinct:
  "distinct (map fst m) \<Longrightarrow> distinct (map fst (setdefault_append k p m))"
  by (simp add: setdefault_append_keys)

lemma setdefault_append_map_of:
  "map_of (setdefault_append k p m) k' =
     (if k' = k then Some ((case map_of m k of None \<Rightarrow> [] | Some ps \<Rightarrow> ps) @ [p]) else map_of m k')"
  by (induction m) auto

lemma group_fold_distinct:
  "distinct (map fst m) \<Longrightarrow> distinct (map fst (foldl (group_step str_of) m d))"
proof (induction d arbitrary: m)
  case Nil
  then show ?case by simp
next
  case (Cons e d)
  obtain p ph where e: "e = (p, ph)" by (cases e)
  show ?case using Cons by (cases ph) (simp_all add: e setdefault_append_distinct)
qed

lemma group_fold_map_of:
  "map_of (foldl (group_step str_of) m d) k =
     (if keyed_paths str_of k d = [] then map_of m k
      else Some ((case map_of m k of None \<Rightarrow> [] | Some ps \<Rightarrow> ps) @ keyed_paths str_of k d))"
proof (induction d arbitrary: m)
  case Nil
  then show ?case by simp
next
  case (Cons e d)
  obtain p ph where e: "e = (p, ph)" by (cases e)
  show ?case
  proof (cases ph)
    case None
    then show ?thesis using Cons by (simp add: e)
  next
    case (Some h)
    then show ?thesis using Cons by (simp add: e setdefault_append_map_of)
  qed
qed

lemma group_mapping_map_of:
  "map_of (group_mapping str_of d) k =
     (if keyed_paths str_of k d = [] then None else Some (keyed_paths str_of k d))"
  by (simp add: group_mapping_def group_fold_map_of)

lemma group_mapping_distinct: "distinct (map fst (group_mapping str_of d))"
  by (simp add: group_mapping_def group_fold_distinct)

lemma group_mapping_set:
  "set (group_mapping str_of d) = {(k, ps). ps = keyed_paths str_of k d \<and> ps \<noteq> []}"
proof -
  have "\<And>k ps. (k, ps) \<in> set (group_mapping str_of d) \<longleftrightarrow> map_of (group_mapping str_of d) k = Some ps"
    using group_mapping_distinct [of str_of d] by (simp add: map_of_eq_Some_iff)
  then show ?thesis by (auto simp: group_mapping_map_of split: if_splits)
qed

lemma groups_set:
  "set (group_exact_duplicates str_of d) =
     {ps. \<exists>k. ps = keyed_paths str_of k d \<and> length ps > 1}"
proof -
  have "set (group_exact_duplicates str_of d) =
      {ps. (\<exists>k. (k, ps) \<in> set (group_mapping str_of d)) \<and> length ps > 1}"
    by (force simp: group_exact_duplicates_def)
  also have "\<dots> = {ps. \<exists>k. ps = keyed_paths str_of k d \<and> length ps > 1}"
    unfolding group_mapping_set by fastforce
  finally show ?thesis .
qed

lemma keyed_paths_disjoint:
  assumes "distinct (map fst d)" "k \<noteq> k'"
  shows "set (keyed_paths str_of k d) \<inter> set (keyed_paths str_of k' d) = {}"
proof -
  have "\<And>p h h'. (p, Some h) \<in> set d \<Longrightarrow> (p, Some h') \<in> set d \<Longrightarrow> h = h'"
    using assms(1) by (metis eq_key_imp_eq_value option.inject)
  then show ?thesis using assms(2) by (auto simp: set_keyed_paths)
qed

lemma groups_distinct_each:
  "distinct (map fst d) \<Longrightarrow> g \<in> set (group_exact_duplicates str_of d) \<Longrightarrow> distinct g"
  by (auto simp: groups_set distinct_keyed_paths)

lemma group_mapping_values_distinct:
  assumes "distinct (map fst d)"
  shows "distinct (map snd (group_mapping str_of d))"
proof -
  have "inj_on snd (set (group_mapping str_of d))"
  proof (rule inj_onI)
    fix x y
    assume x: "x \<in> set (group_mapping str_of d)" and y: "y \<in> set (group_mapping str_of d)"
      and eq: "snd x = snd y"
    obtain k ps where xk: "x = (k, ps)" by (cases x)
    obtain k' qs where yk: "y = (k', qs)" by (cases y)
    from x xk have ps: "ps = keyed_paths str_of k d" "ps \<noteq> []"
      by (auto simp: group_mapping_set)
    from y yk have qs: "qs = keyed_paths str_of k' d"
      by (simp_all add: group_mapping_set)
    have "k = k'"
    proof (rule ccontr)
      assume "k \<noteq> k'"
      then have "set ps \<inter> set qs = {}"
        using keyed_paths_disjoint [OF assms] ps(1) qs by blast
      moreover have "ps = qs" using eq xk yk by simp
      ultimately show False using ps(2) by simp
    qed
    then show "x = y" using eq xk yk by simp
  qed
  moreover have "distinct (group_mapping str_of d)"
    using group_mapping_distinct [of str_of d] by (simp add: distinct_map)
  ultimately show ?thesis by (simp add: distinct_map)
qed

lemma groups_concat_distinct:
  assumes "distinct (map fst d)"
  shows "distinct (concat (group_exact_duplicates str_of d))"
proof (rule distinct_concat)
  show "distinct (group_exact_duplicates str_of d)"
    unfolding group_exact_duplicates_def
    using group_mapping_values_distinct [OF assms] by (rule distinct_filter)
next
  fix ys assume "ys \<in> set (group_exact_duplicates str_of d)"
  then show "distinct ys" using assms by (rule groups_distinct_each [rotated])
next
  fix ys zs
  assume "ys \<in> set (group_exact_duplicates str_of d)" "zs \<in> set (group_exact_duplicates str_of d)"
    and "ys \<noteq> zs"
  then obtain k k' where "ys = keyed_paths str_of k d" "zs = keyed_paths str_of k' d" "k \<noteq> k'"
    by (auto simp: groups_set)
  then show "set ys \<inter> set zs = {}"
    using keyed_paths_disjoint [OF assms] by simp
qed

lemma groups_as_sets:
  assumes "distinct (map fst d)"
  shows "set ` set (group_exact_duplicates str_of d) =
     {C. \<exists>k. C = {p. \<exists>h. (p, Some h) \<in> set d \<and> str_of h = k} \<and> 2 \<le> card C}"
proof -
  have card: "\<And>k. length (keyed_paths str_of k d) = card {p. \<exists>h. (p, Some h) \<in> set d \<and> str_of h = k}"
    using distinct_card [OF distinct_keyed_paths [OF assms], of str_of] by (simp add: set_keyed_paths)
  have "set ` set (group_exact_duplicates str_of d) =
      {set (keyed_paths str_of k d) | k. length (keyed_paths str_of k d) > 1}"
    unfolding groups_set by blast
  also have "\<dots> = {C. \<exists>k. C = {p. \<exists>h. (p, Some h) \<in> set d \<and> str_of h = k} \<and> 2 \<le> card C}"
    unfolding card set_keyed_paths by auto
  finally show ?thesis .
qed

text \<open>
  C1. Precondition: the argument is a dictionary (keys pairwise distinct),
  and the string form of a fingerprint determines the fingerprint (\<open>str\<close> of the
  library's hash object prints all of its bits in hexadecimal). Then the groups returned
  by \<open>group_exact_duplicates\<close>, read as sets, are exactly the classes of paths with one
  common present fingerprint that have at least two members; two different paths share
  a group if and only if both have a present fingerprint and the two are equal; every
  group has length at least 2; no path with an absent fingerprint is in a group; and
  no path occurs twice, neither in one group nor in two.
\<close>

theorem group_exact_duplicates_classes:
  assumes keys: "distinct (map fst hash_dict)" and inj: "inj str_of"
  shows "set ` set (group_exact_duplicates str_of hash_dict) =
           {C. \<exists>h. C = {p. (p, Some h) \<in> set hash_dict} \<and> 2 \<le> card C}
       \<and> (\<forall>p q. p \<noteq> q \<longrightarrow>
            ((\<exists>g \<in> set (group_exact_duplicates str_of hash_dict). p \<in> set g \<and> q \<in> set g)
             \<longleftrightarrow> (\<exists>h. (p, Some h) \<in> set hash_dict \<and> (q, Some h) \<in> set hash_dict)))
       \<and> (\<forall>g \<in> set (group_exact_duplicates str_of hash_dict). 2 \<le> length g)
       \<and> (\<forall>g \<in> set (group_exact_duplicates str_of hash_dict). \<forall>p \<in> set g. (p, None) \<notin> set hash_dict)
       \<and> distinct (concat (group_exact_duplicates str_of hash_dict))"
proof -
  let ?G = "group_exact_duplicates str_of hash_dict"
  have cls: "\<And>h. {p. \<exists>h'. (p, Some h') \<in> set hash_dict \<and> str_of h' = str_of h} = {p. (p, Some h) \<in> set hash_dict}"
    using inj by (auto simp: inj_eq)
  have a: "set ` set ?G = {C. \<exists>h. C = {p. (p, Some h) \<in> set hash_dict} \<and> 2 \<le> card C}"
  proof (rule set_eqI, rule iffI)
    fix C assume "C \<in> set ` set ?G"
    then obtain k where C: "C = {p. \<exists>h. (p, Some h) \<in> set hash_dict \<and> str_of h = k}" and c2: "2 \<le> card C"
      unfolding groups_as_sets [OF keys] by blast
    from c2 have "C \<noteq> {}" by auto
    then obtain p h where "(p, Some h) \<in> set hash_dict" "str_of h = k" using C by blast
    then have "C = {p. (p, Some h) \<in> set hash_dict}" using C cls [of h] by simp
    then show "C \<in> {C. \<exists>h. C = {p. (p, Some h) \<in> set hash_dict} \<and> 2 \<le> card C}" using c2 by blast
  next
    fix C assume "C \<in> {C. \<exists>h. C = {p. (p, Some h) \<in> set hash_dict} \<and> 2 \<le> card C}"
    then obtain h where "C = {p. (p, Some h) \<in> set hash_dict}" "2 \<le> card C" by blast
    then have "C = {p. \<exists>h'. (p, Some h') \<in> set hash_dict \<and> str_of h' = str_of h} \<and> 2 \<le> card C"
      using cls [of h] by simp
    then show "C \<in> set ` set ?G" unfolding groups_as_sets [OF keys] by blast
  qed
  have uniq: "\<And>p h h'. (p, Some h) \<in> set hash_dict \<Longrightarrow> (p, Some h') \<in> set hash_dict \<Longrightarrow> h = h'"
    using keys by (metis eq_key_imp_eq_value option.inject)
  have b: "\<forall>p q. p \<noteq> q \<longrightarrow>
            ((\<exists>g \<in> set ?G. p \<in> set g \<and> q \<in> set g)
             \<longleftrightarrow> (\<exists>h. (p, Some h) \<in> set hash_dict \<and> (q, Some h) \<in> set hash_dict))"
  proof (intro allI impI iffI)
    fix p q :: path
    assume "\<exists>g \<in> set ?G. p \<in> set g \<and> q \<in> set g"
    then obtain k where "p \<in> set (keyed_paths str_of k hash_dict)" "q \<in> set (keyed_paths str_of k hash_dict)"
      by (auto simp: groups_set)
    then obtain h h' where "(p, Some h) \<in> set hash_dict" "(q, Some h') \<in> set hash_dict" "str_of h = str_of h'"
      by (auto simp: set_keyed_paths)
    then show "\<exists>h. (p, Some h) \<in> set hash_dict \<and> (q, Some h) \<in> set hash_dict"
      using inj by (auto simp: inj_eq)
  next
    fix p q :: path
    assume ne: "p \<noteq> q" and "\<exists>h. (p, Some h) \<in> set hash_dict \<and> (q, Some h) \<in> set hash_dict"
    then obtain h where h: "(p, Some h) \<in> set hash_dict" "(q, Some h) \<in> set hash_dict" by blast
    let ?g = "keyed_paths str_of (str_of h) hash_dict"
    have pq: "p \<in> set ?g" "q \<in> set ?g" using h by (auto simp: set_keyed_paths)
    have "distinct ?g" using keys by (rule distinct_keyed_paths)
    then have "card (set ?g) = length ?g" by (rule distinct_card)
    moreover have "{p, q} \<subseteq> set ?g" using pq by simp
    then have "card {p, q} \<le> card (set ?g)" by (intro card_mono) simp_all
    ultimately have "1 < length ?g" using ne by simp
    then have "?g \<in> set ?G" by (auto simp: groups_set)
    then show "\<exists>g \<in> set ?G. p \<in> set g \<and> q \<in> set g" using pq by blast
  qed
  have c: "\<forall>g \<in> set ?G. 2 \<le> length g" by (auto simp: groups_set)
  have d: "\<forall>g \<in> set ?G. \<forall>p \<in> set g. (p, None) \<notin> set hash_dict"
  proof (intro ballI notI)
    fix g p assume "g \<in> set ?G" "p \<in> set g" "(p, None) \<in> set hash_dict"
    then obtain h where "(p, Some h) \<in> set hash_dict" "(p, None) \<in> set hash_dict"
      by (auto simp: groups_set set_keyed_paths)
    then show False using keys by (metis eq_key_imp_eq_value option.distinct(1))
  qed
  show ?thesis by (intro conjI a b c d groups_concat_distinct [OF keys])
qed

theorem group_exact_duplicates_classes_witness:
  "distinct (map fst [(''a.jpg'', Some ''f0''), (''b.jpg'', None), (''c.jpg'', Some ''f0''), (''d.jpg'', Some ''0f'')])
   \<and> inj (\<lambda>h :: string. h)
   \<and> group_exact_duplicates (\<lambda>h. h)
         [(''a.jpg'', Some ''f0''), (''b.jpg'', None), (''c.jpg'', Some ''f0''), (''d.jpg'', Some ''0f'')]
       = [[''a.jpg'', ''c.jpg'']]
   \<and> distinct (concat (group_exact_duplicates (\<lambda>h. h)
         [(''a.jpg'', Some ''f0''), (''b.jpg'', None), (''c.jpg'', Some ''f0''), (''d.jpg'', Some ''0f'')]))"
proof -
  let ?d = "[(''a.jpg'', Some ''f0''), (''b.jpg'', None), (''c.jpg'', Some ''f0''), (''d.jpg'', Some ''0f'')]"
  have h1: "distinct (map fst ?d)" by simp
  have h2: "inj (\<lambda>h :: string. h)" by (rule injI)
  have v: "group_exact_duplicates (\<lambda>h. h) ?d = [[''a.jpg'', ''c.jpg'']]"
    by (simp add: group_exact_duplicates_def group_mapping_def)
  from group_exact_duplicates_classes [OF h1 h2]
  have "distinct (concat (group_exact_duplicates (\<lambda>h. h) ?d))" by (elim conjE)
  with h1 h2 v show ?thesis by (intro conjI)
qed

text \<open>
  C6. For two dictionaries that are permutations of each other, the results of
  \<open>group_exact_duplicates\<close> hold the same groups when each group is read as a set of
  paths. No assumption on the string form is needed.
\<close>

theorem group_exact_duplicates_permutation:
  assumes "distinct (map fst d1)" and "mset d1 = mset d2"
  shows "set (map set (group_exact_duplicates str_of d1)) = set (map set (group_exact_duplicates str_of d2))"
proof -
  have "mset (map fst d1) = mset (map fst d2)" using assms(2) by (metis mset_map)
  then have d2: "distinct (map fst d2)" using assms(1) by (metis mset_eq_imp_distinct_iff)
  have "set d1 = set d2" using assms(2) by (rule mset_eq_setD)
  then show ?thesis
    using groups_as_sets [OF assms(1), of str_of] groups_as_sets [OF d2, of str_of] by simp
qed

theorem group_exact_duplicates_permutation_witness:
  "distinct (map fst [(''a.jpg'', Some (1::nat)), (''b.jpg'', None), (''c.jpg'', Some 1)])
   \<and> mset [(''a.jpg'', Some (1::nat)), (''b.jpg'', None), (''c.jpg'', Some 1)]
       = mset [(''c.jpg'', Some 1), (''b.jpg'', None), (''a.jpg'', Some 1)]
   \<and> set (map set (group_exact_duplicates (\<lambda>n. replicate n CHR ''f'')
          [(''a.jpg'', Some (1::nat)), (''b.jpg'', None), (''c.jpg'', Some 1)]))
     = set (map set (group_exact_duplicates (\<lambda>n. replicate n CHR ''f'')
          [(''c.jpg'', Some 1), (''b.jpg'', None), (''a.jpg'', Some 1)]))"
proof -
  let ?d1 = "[(''a.jpg'', Some (1::nat)), (''b.jpg'', None), (''c.jpg'', Some 1)]"
  let ?d2 = "[(''c.jpg'', Some (1::nat)), (''b.jpg'', None), (''a.jpg'', Some 1)]"
  have h1: "distinct (map fst ?d1)" by simp
  have h2: "mset ?d1 = mset ?d2" by simp
  show ?thesis
    using h1 h2 group_exact_duplicates_permutation [OF h1 h2, of "\<lambda>n. replicate n CHR ''f''"]
    by (intro conjI)
qed

section \<open>The file system\<close>

text \<open>
  The state of the file system as the program sees it: every existing path with its
  kind and the size \<open>os.stat\<close> reports, the paths on which the operating system
  refuses a change, and the greatest length of a file name that the file system stores
  (\<open>NAME_MAX\<close>, 255 on the usual ones). \<open>moves\<close> is the record of the calls of
  \<open>shutil.move\<close> that completed, as (source, destination) pairs in the order of the
  calls; no operation reads it.
\<close>

datatype node = File (st_size: nat) | Directory (st_size: nat)

record world =
  entries :: "(path, node) dict"
  locked :: "path list"
  name_max :: nat
  moves :: "(path \<times> path) list"

definition path_exists :: "world \<Rightarrow> path \<Rightarrow> bool" where
  "path_exists w p = (map_of (entries w) p \<noteq> None)"

definition getsize :: "world \<Rightarrow> path \<Rightarrow> py_error + nat" where
  "getsize w p = (case map_of (entries w) p of None \<Rightarrow> Inl FileNotFoundError | Some nd \<Rightarrow> Inr (st_size nd))"

text \<open>
  The program moves regular files only (the walk lists them); moving a directory would
  carry its contents along, which this table of entries does not express, so the
  theorems on moves speak of sources that are regular files.
\<close>

definition is_file :: "world \<Rightarrow> path \<Rightarrow> bool" where
  "is_file w p = (case map_of (entries w) p of Some (File n) \<Rightarrow> True | _ \<Rightarrow> False)"

text \<open>
  An entry can be created under a path only when its last component is no longer than
  the file system allows; otherwise the system call fails with \<open>ENAMETOOLONG\<close>, an
  \<open>OSError\<close>.
\<close>

definition name_fits :: "world \<Rightarrow> path \<Rightarrow> bool" where
  "name_fits w p = (length (basename p) \<le> name_max w)"

text \<open>
  \<open>os.makedirs(d, exist_ok=True)\<close> creates the missing directories on the way to \<open>d\<close>
  and then \<open>d\<close> itself; an existing directory is accepted. It raises for the empty
  path, when a component on the way is a regular file, when \<open>d\<close> is a regular file,
  and when the operating system refuses to create one of the missing directories (those
  before it have been created by then): with \<open>OSError\<close> for a name that is too long,
  with \<open>PermissionError\<close> for a path in \<open>locked\<close>. \<open>ancestors d\<close> are the proper
  prefixes of \<open>d\<close> that end before a separator. The size of a new directory is
  immaterial (nothing reads it).
\<close>

definition ancestors :: "path \<Rightarrow> path list" where
  "ancestors d = [take i d. i \<leftarrow> [1 ..< length d], d ! i = CHR ''/'']"

definition missing_dirs :: "world \<Rightarrow> path \<Rightarrow> path list" where
  "missing_dirs w d = [a \<leftarrow> ancestors d @ [d]. \<not> path_exists w a]"

definition makedirs :: "path \<Rightarrow> world \<Rightarrow> py_error option \<times> world" where
  "makedirs d w =
     (if d = [] then (Some FileNotFoundError, w)
      else if \<exists>a \<in> set (ancestors d). is_file w a then (Some NotADirectoryError, w)
      else if is_file w d then (Some FileExistsError, w)
      else (let made = takeWhile (\<lambda>a. name_fits w a \<and> a \<notin> set (locked w)) (missing_dirs w d);
                w1 = w\<lparr>entries := entries w @ map (\<lambda>a. (a, Directory 0)) made\<rparr>
            in if made = missing_dirs w d then (None, w1)
               else if name_fits w (missing_dirs w d ! length made) then (Some PermissionError, w1)
               else (Some OSError, w1)))"

definition dict_delete :: "'k \<Rightarrow> ('k, 'v) dict \<Rightarrow> ('k, 'v) dict" where
  "dict_delete k d = [e \<leftarrow> d. fst e \<noteq> k]"

text \<open>
  \<open>shutil.move(src, dst)\<close>. A destination that is an existing directory receives the
  source under its base name, unless that name is taken (\<open>shutil.Error\<close>). The move
  itself is \<open>os.rename\<close>, which replaces an existing file of that name. When the
  operating system refuses the rename of an existing source, \<open>shutil.move\<close> copies the
  file to the destination and then removes the source. A destination name that is too
  long can be neither renamed to nor copied to: the \<open>OSError\<close> of the copy leaves the
  file system as it was. For a source in \<open>locked\<close> the rename is refused and the copy
  is made, but the removal is refused too, so the exception leaves the copy behind and
  the source in place, and the move is not recorded.
\<close>

definition rename :: "path \<Rightarrow> path \<Rightarrow> node \<Rightarrow> world \<Rightarrow> world" where
  "rename src dst nd w =
     w\<lparr>entries := dict_store dst nd (dict_delete src (entries w)), moves := moves w @ [(src, dst)]\<rparr>"

definition move_file :: "path \<Rightarrow> path \<Rightarrow> world \<Rightarrow> py_error option \<times> world" where
  "move_file src real_dst w =
     (case map_of (entries w) src of
        None \<Rightarrow> (Some FileNotFoundError, w)
      | Some nd \<Rightarrow>
          if \<not> name_fits w real_dst then (Some OSError, w)
          else if src \<in> set (locked w)
          then (Some PermissionError, w\<lparr>entries := dict_store real_dst nd (entries w)\<rparr>)
          else (None, rename src real_dst nd w))"

definition shutil_move :: "path \<Rightarrow> path \<Rightarrow> world \<Rightarrow> py_error option \<times> world" where
  "shutil_move src dst w =
     (case map_of (entries w) dst of
        Some (Directory n) \<Rightarrow>
          if path_exists w (path_join dst (basename src)) then (Some ShutilError, w)
          else move_file src (path_join dst (basename src)) w
      | _ \<Rightarrow> move_file src dst w)"

section \<open>Relocation: \<open>move_duplicate\<close>\<close>

text \<open>The name tried at turn \<open>i\<close> of the loop: \<open>f"{base}_{i}{ext}"\<close> inside the directory.\<close>

definition numbered :: "path \<Rightarrow> string \<Rightarrow> string \<Rightarrow> nat \<Rightarrow> path" where
  "numbered duplicates_dir base ext i = path_join duplicates_dir (base @ ''_'' @ str_nat i @ ext)"

function dest_loop :: "world \<Rightarrow> path \<Rightarrow> string \<Rightarrow> string \<Rightarrow> path \<Rightarrow> nat \<Rightarrow> path" where
  "dest_loop w duplicates_dir base ext dest i =
     (if path_exists w dest
      then dest_loop w duplicates_dir base ext (numbered duplicates_dir base ext i) (Suc i)
      else dest)"
  by pat_completeness auto

lemma digit_char_inj: "a < 10 \<Longrightarrow> b < 10 \<Longrightarrow> digit_char a = digit_char b \<Longrightarrow> a = b"
proof -
  assume a: "a < 10" and b: "b < 10" and eq: "digit_char a = digit_char b"
  have "(of_char (digit_char a) :: nat) = of_char (digit_char b)" using eq by simp
  then have "(48 + a) mod 256 = (48 + b) mod 256" by (simp add: digit_char_def)
  then show "a = b" using a b by simp
qed

lemma str_nat_small: "n < 10 \<Longrightarrow> str_nat n = [digit_char n]"
  by (subst str_nat.simps) simp

lemma str_nat_large: "\<not> n < 10 \<Longrightarrow> str_nat n = str_nat (n div 10) @ [digit_char (n mod 10)]"
  by (subst str_nat.simps) simp

lemma str_nat_nonempty: "str_nat n \<noteq> []"
  by (cases "n < 10") (simp_all add: str_nat_small str_nat_large)

lemma str_nat_length: "length (str_nat n) = Suc 0 \<longleftrightarrow> n < 10"
proof (cases "n < 10")
  case True
  then show ?thesis by (simp add: str_nat_small)
next
  case False
  have "length (str_nat (n div 10)) \<noteq> 0" using str_nat_nonempty [of "n div 10"] by simp
  then show ?thesis using False by (simp add: str_nat_large)
qed

lemma str_nat_inj: "str_nat m = str_nat n \<Longrightarrow> m = n"
proof (induction m arbitrary: n rule: str_nat.induct)
  case (1 m)
  show ?case
  proof (cases "m < 10")
    case True
    then have "length (str_nat n) = Suc 0" using "1.prems" str_nat_length [of m] by simp
    then have n: "n < 10" by (simp add: str_nat_length)
    have "[digit_char m] = [digit_char n]"
      using "1.prems" str_nat_small [OF True] str_nat_small [OF n] by simp
    then show ?thesis using True n digit_char_inj by simp
  next
    case False
    then have "length (str_nat n) \<noteq> Suc 0" using "1.prems" str_nat_length [of m] by simp
    then have n: "\<not> n < 10" by (simp add: str_nat_length)
    have "str_nat (m div 10) @ [digit_char (m mod 10)] = str_nat (n div 10) @ [digit_char (n mod 10)]"
      using "1.prems" str_nat_large [OF False] str_nat_large [OF n] by simp
    then have "str_nat (m div 10) = str_nat (n div 10)" "digit_char (m mod 10) = digit_char (n mod 10)"
      by simp_all
    then have "m div 10 = n div 10" "m mod 10 = n mod 10"
      using "1.IH" [OF False] digit_char_inj [of "m mod 10" "n mod 10"] by simp_all
    then show ?thesis by (metis div_mult_mod_eq)
  qed
qed

lemma path_join_suffix_inj:
  "path_join d (b @ x) = path_join d (b @ y) \<Longrightarrow> x \<noteq> [] \<Longrightarrow> y \<noteq> [] \<Longrightarrow> hd (b @ x) = hd (b @ y) \<Longrightarrow> x = y"
  by (auto simp: path_join_def split: if_splits)

lemma numbered_inj: "numbered d base ext i = numbered d base ext j \<Longrightarrow> i = j"
proof -
  assume eq: "numbered d base ext i = numbered d base ext j"
  let ?x = "''_'' @ str_nat i @ ext" and ?y = "''_'' @ str_nat j @ ext"
  have "hd (base @ ?x) = hd (base @ ?y)" by (cases base) simp_all
  moreover have "path_join d (base @ ?x) = path_join d (base @ ?y)" using eq by (simp add: numbered_def)
  ultimately have "?x = ?y" by (rule path_join_suffix_inj [of d base, rotated 3]) simp_all
  then have "str_nat i = str_nat j" by simp
  then show "i = j" by (rule str_nat_inj)
qed

text \<open>
  The loop ends: the numbered names are pairwise different and only finitely many paths
  exist, so some number is above every numbered name in use.
\<close>

definition name_bound :: "world \<Rightarrow> path \<Rightarrow> string \<Rightarrow> string \<Rightarrow> nat" where
  "name_bound w duplicates_dir base ext =
     Suc (Max (insert 0 {i. path_exists w (numbered duplicates_dir base ext i)}))"

lemma numbered_in_use_finite: "finite {i. path_exists w (numbered d base ext i)}"
proof -
  have "inj (numbered d base ext)" by (rule injI) (rule numbered_inj)
  moreover have "finite (fst ` set (entries w))" by simp
  ultimately have "finite (numbered d base ext -` (fst ` set (entries w)))" by (rule finite_vimageI [rotated])
  moreover have "{i. path_exists w (numbered d base ext i)} = numbered d base ext -` (fst ` set (entries w))"
    by (auto simp: path_exists_def map_of_eq_None_iff)
  ultimately show ?thesis by simp
qed

lemma name_bound_above: "path_exists w (numbered d base ext i) \<Longrightarrow> i < name_bound w d base ext"
proof -
  assume "path_exists w (numbered d base ext i)"
  then have "i \<in> insert 0 {i. path_exists w (numbered d base ext i)}" by simp
  moreover have "finite (insert 0 {i. path_exists w (numbered d base ext i)})"
    using numbered_in_use_finite by simp
  ultimately have "i \<le> Max (insert 0 {i. path_exists w (numbered d base ext i)})" by (rule Max_ge [rotated])
  then show ?thesis by (simp add: name_bound_def)
qed

termination dest_loop
proof (relation "measure (\<lambda>(w, d, base, ext, dest, i).
          2 * (name_bound w d base ext - i) + (if path_exists w dest then 1 else 0))")
  show "wf (measure (\<lambda>(w, d, base, ext, dest, i).
          2 * (name_bound w d base ext - i) + (if path_exists w dest then 1 else 0)))"
    by (rule wf_measure)
next
  fix w :: world and duplicates_dir base ext dest :: string and i :: nat
  assume "path_exists w dest"
  moreover have "path_exists w (numbered duplicates_dir base ext i) \<Longrightarrow> i < name_bound w duplicates_dir base ext"
    by (rule name_bound_above)
  ultimately show "((w, duplicates_dir, base, ext, numbered duplicates_dir base ext i, Suc i),
          (w, duplicates_dir, base, ext, dest, i))
        \<in> measure (\<lambda>(w, d, base, ext, dest, i).
          2 * (name_bound w d base ext - i) + (if path_exists w dest then 1 else 0))"
    by auto
qed

declare dest_loop.simps [simp del]

text \<open>
  \<open>move_duplicate\<close>: create the directory, pick the first free name, move. The
  destination picked by lines 73 to 79 is \<open>free_dest\<close>.
\<close>

definition free_dest :: "world \<Rightarrow> path \<Rightarrow> path \<Rightarrow> path" where
  "free_dest w src_file duplicates_dir =
     (let name = basename src_file;
          dest = path_join duplicates_dir name;
          (base, ext) = splitext name
      in dest_loop w duplicates_dir base ext dest 1)"

definition move_duplicate :: "path \<Rightarrow> path \<Rightarrow> world \<Rightarrow> py_error option \<times> world" where
  "move_duplicate src_file duplicates_dir w =
     (case makedirs duplicates_dir w of
        (Some e, w1) \<Rightarrow> (Some e, w1)
      | (None, w1) \<Rightarrow> shutil_move src_file (free_dest w1 src_file duplicates_dir) w1)"

section \<open>The move phase of \<open>compare_images\<close>\<close>

text \<open>
  \<open>max(group, key=...)\<close>: the key of every element is computed in order; a later
  element replaces the best one only when its key is strictly greater; the empty list
  raises \<open>ValueError\<close>; an exception of the key function ends the search.
\<close>

fun max_loop :: "('a \<Rightarrow> py_error + nat) \<Rightarrow> 'a \<Rightarrow> nat \<Rightarrow> 'a list \<Rightarrow> py_error + 'a" where
  "max_loop key best best_key [] = Inr best"
| "max_loop key best best_key (x # xs) =
     (case key x of
        Inl e \<Rightarrow> Inl e
      | Inr k \<Rightarrow> if k > best_key then max_loop key x k xs else max_loop key best best_key xs)"

definition py_max :: "('a \<Rightarrow> py_error + nat) \<Rightarrow> 'a list \<Rightarrow> py_error + 'a" where
  "py_max key xs =
     (case xs of
        [] \<Rightarrow> Inl ValueError
      | x # rest \<Rightarrow> (case key x of Inl e \<Rightarrow> Inl e | Inr k \<Rightarrow> max_loop key x k rest))"

text \<open>The inner loop \<open>for img in group: if img != original: move_duplicate(...)\<close>.\<close>

fun move_others :: "path \<Rightarrow> path \<Rightarrow> path list \<Rightarrow> world \<Rightarrow> py_error option \<times> world" where
  "move_others original duplicates_dir [] w = (None, w)"
| "move_others original duplicates_dir (img # rest) w =
     (if img \<noteq> original
      then (case move_duplicate img duplicates_dir w of
              (Some e, w') \<Rightarrow> (Some e, w')
            | (None, w') \<Rightarrow> move_others original duplicates_dir rest w')
      else move_others original duplicates_dir rest w)"

text \<open>One turn of \<open>for group in exact_groups\<close>: choose the original, move the others.\<close>

definition move_group :: "path \<Rightarrow> path list \<Rightarrow> world \<Rightarrow> py_error option \<times> world" where
  "move_group duplicates_dir grp w =
     (case py_max (getsize w) grp of
        Inl e \<Rightarrow> (Some e, w)
      | Inr original \<Rightarrow> move_others original duplicates_dir grp w)"

fun move_groups :: "path \<Rightarrow> path list list \<Rightarrow> world \<Rightarrow> py_error option \<times> world" where
  "move_groups duplicates_dir [] w = (None, w)"
| "move_groups duplicates_dir (grp # rest) w =
     (case move_group duplicates_dir grp w of
        (Some e, w') \<Rightarrow> (Some e, w')
      | (None, w') \<Rightarrow> move_groups duplicates_dir rest w')"

text \<open>\<open>if move_path:\<close> holds for a string that is neither \<open>None\<close> nor empty.\<close>

definition move_phase :: "path option \<Rightarrow> path list list \<Rightarrow> world \<Rightarrow> py_error option \<times> world" where
  "move_phase move_path exact_groups w =
     (case move_path of
        None \<Rightarrow> (None, w)
      | Some mp \<Rightarrow> if mp \<noteq> [] then move_groups (path_join mp ''duplicates'') exact_groups w
                  else (None, w))"

section \<open>The whole run: \<open>compare_images\<close> and the command line\<close>

text \<open>
  What a run leaves behind: the progress lines printed, the groups found, the
  exception that ended the run early (if any), and the file system.
\<close>

record 'e run =
  progress :: "'e progress_line list"
  found_groups :: "path list list"
  raised :: "py_error option"
  final :: world

definition compare_images ::
  "(path \<Rightarrow> (path \<times> string list \<times> string list) list) \<Rightarrow> (path \<Rightarrow> py_error + 'h) \<Rightarrow> ('h \<Rightarrow> string)
    \<Rightarrow> (nat \<Rightarrow> 'e) \<Rightarrow> path \<Rightarrow> path option \<Rightarrow> world \<Rightarrow> 'e run" where
  "compare_images os_walk phash_of str_of eta_at folder_path move_path w =
     (let images = find_images os_walk folder_path;
          (hash_dict, out) = fingerprint_phase phash_of eta_at images;
          exact_groups = group_exact_duplicates str_of hash_dict;
          (err, w') = move_phase move_path exact_groups w
      in \<lparr>progress = out, found_groups = exact_groups, raised = err, final = w'\<rparr>)"

text \<open>
  The script body. An exit with the usage text does not call \<open>compare_images\<close>; a run
  that returns ends the process with status 0, an uncaught exception with status 1.
\<close>

record 'e process =
  usage_printed :: bool
  exit_status :: nat
  ran :: "'e run option"

definition main ::
  "(path \<Rightarrow> (path \<times> string list \<times> string list) list) \<Rightarrow> (path \<Rightarrow> py_error + 'h) \<Rightarrow> ('h \<Rightarrow> string)
    \<Rightarrow> (nat \<Rightarrow> 'e) \<Rightarrow> string list \<Rightarrow> world \<Rightarrow> 'e process" where
  "main os_walk phash_of str_of eta_at argv w =
     (if length argv \<notin> {2, 4} \<or> (length argv = 4 \<and> argv ! 2 \<noteq> ''-m'')
      then \<lparr>usage_printed = True, exit_status = 1, ran = None\<rparr>
      else (let folder = argv ! 1;
                move_folder = (if length argv = 4 then Some (argv ! 3) else None);
                r = compare_images os_walk phash_of str_of eta_at folder move_folder w
            in \<lparr>usage_printed = False,
                exit_status = (if raised r = None then 0 else 1),
                ran = Some r\<rparr>))"

section \<open>Properties of the fingerprint phase\<close>

lemma dict_store_keys:
  "map fst (dict_store k v d) = (if k \<in> fst ` set d then map fst d else map fst d @ [k])"
  by (induction d) (force+)

lemma dict_store_distinct: "distinct (map fst d) \<Longrightarrow> distinct (map fst (dict_store k v d))"
  by (simp add: dict_store_keys)

lemma dict_store_map_of: "map_of (dict_store k v d) = (map_of d)(k \<mapsto> v)"
  by (induction d) auto

lemma hash_loop_lines:
  "snd (hash_loop eta_at n i rs (d, out)) =
     out @ map (\<lambda>j. print_progress_bar j n 40 (Some (eta_at j))) [i ..< i + length rs]"
proof (induction rs arbitrary: i d out)
  case Nil
  then show ?case by simp
next
  case (Cons r rs)
  obtain p ph where r: "r = (p, ph)" by (cases r)
  have "[i ..< i + length (r # rs)] = i # [Suc i ..< Suc i + length rs]"
    by (simp add: upt_conv_Cons del: upt_Suc)
  then show ?case using Cons [of "Suc i"] by (simp add: r del: upt_Suc)
qed

lemma hash_loop_distinct:
  "distinct (map fst d) \<Longrightarrow> distinct (map fst (fst (hash_loop eta_at n i rs (d, out))))"
proof (induction rs arbitrary: i d out)
  case Nil
  then show ?case by simp
next
  case (Cons r rs)
  obtain p ph where r: "r = (p, ph)" by (cases r)
  show ?case using Cons by (simp add: r dict_store_distinct)
qed

lemma hash_loop_map_of:
  "map_of (fst (hash_loop eta_at n i rs (d, out))) = map_of d ++ map_of (rev rs)"
proof (induction rs arbitrary: i d out)
  case Nil
  then show ?case by simp
next
  case (Cons r rs)
  obtain p ph where r: "r = (p, ph)" by (cases r)
  show ?case using Cons by (simp add: r dict_store_map_of map_add_upd_left fun_eq_iff map_add_def split: option.splits)
qed

lemma safe_compute_hash_fst: "fst (safe_compute_hash phash_of p) = p"
  by (simp add: safe_compute_hash_def split: sum.splits)

lemma map_of_rev_results:
  "p \<in> set images \<Longrightarrow> map_of (rev (map (safe_compute_hash phash_of) images)) p = Some (snd (safe_compute_hash phash_of p))"
proof (induction images rule: rev_induct)
  case Nil
  then show ?case by simp
next
  case (snoc q images)
  obtain a b where ab: "safe_compute_hash phash_of q = (a, b)" by (cases "safe_compute_hash phash_of q")
  then have "a = q" using safe_compute_hash_fst [of phash_of q] by simp
  then show ?case using snoc ab by auto
qed

text \<open>
  C5. For every list of \<open>N\<close> image paths the fingerprint phase produces exactly one
  result per input path, in the order of the input: \<open>N\<close> results, whose paths are the
  input list itself, so none is dropped and none is duplicated. A failure to open,
  decode or hash an image gives the result \<open>(path, None)\<close> for that path; the phase
  has no raising outcome. The loop prints one progress line per result and leaves a
  dictionary whose keys are the input paths, each with the result computed for it.
  (Here \<open>executor.map\<close> is its sequential meaning; a crash of a worker process is
  outside the model.)
\<close>

theorem fingerprint_phase_results:
  "length (executor_map (safe_compute_hash phash_of) images) = length images
   \<and> map fst (executor_map (safe_compute_hash phash_of) images) = images
   \<and> (\<forall>p e. phash_of p = Inl e \<longrightarrow> safe_compute_hash phash_of p = (p, None))
   \<and> (\<forall>p h. phash_of p = Inr h \<longrightarrow> safe_compute_hash phash_of p = (p, Some h))
   \<and> length (snd (fingerprint_phase phash_of eta_at images)) = length images
   \<and> distinct (map fst (fst (fingerprint_phase phash_of eta_at images)))
   \<and> fst ` set (fst (fingerprint_phase phash_of eta_at images)) = set images
   \<and> (\<forall>p \<in> set images.
         map_of (fst (fingerprint_phase phash_of eta_at images)) p = Some (snd (safe_compute_hash phash_of p)))"
proof -
  let ?rs = "map (safe_compute_hash phash_of) images"
  have fsts: "map fst ?rs = images" by (simp add: safe_compute_hash_fst comp_def)
  have lookup: "\<forall>p \<in> set images.
      map_of (fst (fingerprint_phase phash_of eta_at images)) p = Some (snd (safe_compute_hash phash_of p))"
    by (simp add: fingerprint_phase_def executor_map_def hash_loop_map_of map_of_rev_results)
  have "dom (map_of (fst (fingerprint_phase phash_of eta_at images))) = set images"
  proof -
    have "dom (map_of (rev ?rs)) = fst ` set ?rs" by (simp add: dom_map_of_conv_image_fst)
    also have "\<dots> = set (map fst ?rs)" by (simp only: set_map)
    also have "\<dots> = set images" by (simp only: fsts)
    finally show ?thesis by (simp add: fingerprint_phase_def executor_map_def hash_loop_map_of)
  qed
  then have keys: "fst ` set (fst (fingerprint_phase phash_of eta_at images)) = set images"
    by (simp add: dom_map_of_conv_image_fst)
  have dist: "distinct (map fst (fst (fingerprint_phase phash_of eta_at images)))"
    by (simp add: fingerprint_phase_def hash_loop_distinct)
  have len: "length (snd (fingerprint_phase phash_of eta_at images)) = length images"
    by (simp add: fingerprint_phase_def executor_map_def hash_loop_lines del: upt_Suc)
  have a: "length (executor_map (safe_compute_hash phash_of) images) = length images"
    by (simp add: executor_map_def)
  have b: "map fst (executor_map (safe_compute_hash phash_of) images) = images"
    using fsts by (simp add: executor_map_def)
  have c: "\<forall>p e. phash_of p = Inl e \<longrightarrow> safe_compute_hash phash_of p = (p, None)"
    by (simp add: safe_compute_hash_def)
  have d: "\<forall>p h. phash_of p = Inr h \<longrightarrow> safe_compute_hash phash_of p = (p, Some h)"
    by (simp add: safe_compute_hash_def)
  show ?thesis by (intro conjI a b c d len dist keys lookup)
qed

theorem fingerprint_phase_results_witness:
  "(\<lambda>p. if p = ''bad.png'' then Inl UnidentifiedImageError else Inr (length p)) ''bad.png''
       = Inl UnidentifiedImageError
   \<and> safe_compute_hash (\<lambda>p. if p = ''bad.png'' then Inl UnidentifiedImageError else Inr (length p)) ''bad.png''
       = (''bad.png'', None)
   \<and> ''a.jpg'' \<in> set [''a.jpg'', ''bad.png'']
   \<and> map_of (fst (fingerprint_phase
         (\<lambda>p. if p = ''bad.png'' then Inl UnidentifiedImageError else Inr (length p)) (\<lambda>i. i)
         [''a.jpg'', ''bad.png''])) ''a.jpg'' = Some (Some 5)
   \<and> length (snd (fingerprint_phase
         (\<lambda>p. if p = ''bad.png'' then Inl UnidentifiedImageError else Inr (length p)) (\<lambda>i. i)
         [''a.jpg'', ''bad.png''])) = 2"
proof -
  let ?f = "\<lambda>p. if p = ''bad.png'' then Inl UnidentifiedImageError else Inr (length p)"
  note T = fingerprint_phase_results [of ?f "[''a.jpg'', ''bad.png'']" "\<lambda>i :: nat. i"]
  have h1: "?f ''bad.png'' = Inl UnidentifiedImageError" by simp
  have h2: "''a.jpg'' \<in> set [''a.jpg'', ''bad.png'']" by simp
  from T have "\<forall>p e. ?f p = Inl e \<longrightarrow> safe_compute_hash ?f p = (p, None)" by (elim conjE)
  then have c1: "safe_compute_hash ?f ''bad.png'' = (''bad.png'', None)" using h1 by blast
  from T have "\<forall>p \<in> set [''a.jpg'', ''bad.png''].
      map_of (fst (fingerprint_phase ?f (\<lambda>i :: nat. i) [''a.jpg'', ''bad.png''])) p
        = Some (snd (safe_compute_hash ?f p))" by (elim conjE)
  then have "map_of (fst (fingerprint_phase ?f (\<lambda>i :: nat. i) [''a.jpg'', ''bad.png''])) ''a.jpg''
        = Some (snd (safe_compute_hash ?f ''a.jpg''))" using h2 by blast
  then have c2: "map_of (fst (fingerprint_phase ?f (\<lambda>i :: nat. i) [''a.jpg'', ''bad.png''])) ''a.jpg''
        = Some (Some 5)" by (simp add: safe_compute_hash_def)
  from T have "length (snd (fingerprint_phase ?f (\<lambda>i :: nat. i) [''a.jpg'', ''bad.png'']))
      = length [''a.jpg'', ''bad.png'']" by (elim conjE)
  then have c3: "length (snd (fingerprint_phase ?f (\<lambda>i :: nat. i) [''a.jpg'', ''bad.png''])) = 2" by simp
  show ?thesis by (intro conjI h1 c1 h2 c2 c3)
qed

subsection \<open>The progress lines\<close>

lemma full_bar: "0 < n \<Longrightarrow> bar (print_progress_bar n n 40 eta) = replicate 40 CHR ''#''"
  by (simp add: print_progress_bar_def fraction_def Let_def)

lemma print_progress_bar_counters:
  "shown_current (print_progress_bar i n width eta) = i"
  "shown_total (print_progress_bar i n width eta) = n"
  "shown_eta (print_progress_bar i n width eta) = eta"
  by (simp_all add: print_progress_bar_def Let_def)

text \<open>
  C8, as amended. For every non-empty list of image paths the last progress line
  printed by the fingerprint phase has the completed count equal to the total (both
  are the number of paths) and a bar of 40 \<open>#\<close>; for the empty list the loop body never
  runs and no progress line is printed at all.
\<close>

theorem progress_reaches_total:
  "(images \<noteq> [] \<longrightarrow>
      shown_current (last (snd (fingerprint_phase phash_of eta_at images))) = length images
    \<and> shown_total (last (snd (fingerprint_phase phash_of eta_at images))) = length images
    \<and> bar (last (snd (fingerprint_phase phash_of eta_at images))) = replicate 40 CHR ''#'')
   \<and> (images = [] \<longrightarrow> snd (fingerprint_phase phash_of eta_at images) = [])"
proof (cases images rule: rev_cases)
  case Nil
  then show ?thesis by (simp add: fingerprint_phase_def executor_map_def)
next
  case (snoc xs x)
  let ?n = "length images"
  have "snd (fingerprint_phase phash_of eta_at images) =
          map (\<lambda>j. print_progress_bar j ?n 40 (Some (eta_at j))) [1 ..< Suc ?n]"
    by (simp add: fingerprint_phase_def executor_map_def hash_loop_lines)
  moreover have "[1 ..< Suc ?n] = [1 ..< ?n] @ [?n]" using snoc by simp
  ultimately have l: "last (snd (fingerprint_phase phash_of eta_at images)) =
      print_progress_bar ?n ?n 40 (Some (eta_at ?n))" by simp
  have pos: "0 < ?n" using snoc by simp
  show ?thesis unfolding l using snoc full_bar [OF pos]
    by (simp add: print_progress_bar_counters)
qed

theorem progress_reaches_total_witness:
  "[''a.jpg'', ''b.jpg''] \<noteq> []
   \<and> shown_current (last (snd (fingerprint_phase (\<lambda>p. Inr (length p) :: py_error + nat) (\<lambda>i. i) [''a.jpg'', ''b.jpg'']))) = 2
   \<and> shown_total (last (snd (fingerprint_phase (\<lambda>p. Inr (length p) :: py_error + nat) (\<lambda>i. i) [''a.jpg'', ''b.jpg'']))) = 2
   \<and> bar (last (snd (fingerprint_phase (\<lambda>p. Inr (length p) :: py_error + nat) (\<lambda>i. i) [''a.jpg'', ''b.jpg''])))
       = replicate 40 CHR ''#''"
  using progress_reaches_total [of "[''a.jpg'', ''b.jpg'']" "\<lambda>p. Inr (length p) :: py_error + nat" "\<lambda>i :: nat. i"]
  by simp

text \<open>
  C8 as stated fails at the empty list: the phase returns without a single progress
  line, so none shows the completed count equal to the total.
\<close>

theorem progress_empty_list_counterexample:
  "snd (fingerprint_phase (\<lambda>p. Inl UnidentifiedImageError :: py_error + nat) (\<lambda>i. i) []) = []"
  by (simp add: fingerprint_phase_def executor_map_def)

subsection \<open>The estimate of the remaining time\<close>

lemma fingerprint_phase_lines:
  "snd (fingerprint_phase phash_of eta_at images) =
     map (\<lambda>j. print_progress_bar j (length images) 40 (Some (eta_at j))) [1 ..< Suc (length images)]"
  by (simp add: fingerprint_phase_def executor_map_def hash_loop_lines del: upt_Suc)

text \<open>
  C7, as amended. In a run over \<open>N\<close> images the progress lines are those of the turns
  \<open>1, \<dots>, N\<close>: none has a completed count of 0, so no ETA is shown at 0. The ETA
  shown in the line of turn \<open>i\<close> is the time elapsed between the reading of the clock
  before the loop and the reading at turn \<open>i\<close>, divided by \<open>i\<close> and multiplied by
  \<open>N - i\<close>. It is not negative when the reading at turn \<open>i\<close> is not earlier than the
  reading before the loop.
\<close>

theorem eta_of_progress_lines:
  "map shown_current (snd (fingerprint_phase phash_of (remaining start_time clock (length images)) images))
     = [1 ..< Suc (length images)]
   \<and> (\<forall>l \<in> set (snd (fingerprint_phase phash_of (remaining start_time clock (length images)) images)).
        1 \<le> shown_current l \<and> shown_current l \<le> length images
      \<and> shown_total l = length images
      \<and> shown_eta l = Some ((clock (shown_current l) - start_time) / real (shown_current l)
                            * real (length images - shown_current l))
      \<and> (\<forall>e. shown_eta l = Some e \<and> start_time \<le> clock (shown_current l) \<longrightarrow> 0 \<le> e))"
proof -
  let ?n = "length images"
  let ?lines = "snd (fingerprint_phase phash_of (remaining start_time clock ?n) images)"
  have lines: "?lines = map (\<lambda>j. print_progress_bar j ?n 40 (Some (remaining start_time clock ?n j))) [1 ..< Suc ?n]"
    by (rule fingerprint_phase_lines)
  have a: "map shown_current ?lines = [1 ..< Suc ?n]"
    unfolding lines by (simp add: print_progress_bar_counters comp_def del: upt_Suc)
  have b: "\<forall>l \<in> set ?lines.
        1 \<le> shown_current l \<and> shown_current l \<le> ?n
      \<and> shown_total l = ?n
      \<and> shown_eta l = Some ((clock (shown_current l) - start_time) / real (shown_current l)
                            * real (?n - shown_current l))
      \<and> (\<forall>e. shown_eta l = Some e \<and> start_time \<le> clock (shown_current l) \<longrightarrow> 0 \<le> e)"
  proof
    fix l assume "l \<in> set ?lines"
    then obtain j where j: "1 \<le> j" "j \<le> ?n"
        and l: "l = print_progress_bar j ?n 40 (Some (remaining start_time clock ?n j))"
      unfolding lines by auto
    have eta: "remaining start_time clock ?n j = (clock j - start_time) / real j * real (?n - j)"
      using j by (simp add: remaining_def Let_def of_nat_diff)
    have "start_time \<le> clock j \<longrightarrow> 0 \<le> (clock j - start_time) / real j * real (?n - j)"
      by (simp add: zero_le_mult_iff zero_le_divide_iff)
    then show "1 \<le> shown_current l \<and> shown_current l \<le> ?n
      \<and> shown_total l = ?n
      \<and> shown_eta l = Some ((clock (shown_current l) - start_time) / real (shown_current l)
                            * real (?n - shown_current l))
      \<and> (\<forall>e. shown_eta l = Some e \<and> start_time \<le> clock (shown_current l) \<longrightarrow> 0 \<le> e)"
      using j eta by (simp add: l print_progress_bar_counters)
  qed
  show ?thesis by (intro conjI a b)
qed

theorem eta_of_progress_lines_witness:
  "(let lines = snd (fingerprint_phase (\<lambda>p. Inr (length p) :: py_error + nat)
                       (remaining 10 (\<lambda>i. 10 + 3 * real i) (length [''a.jpg'', ''b.jpg'', ''c.jpg'']))
                       [''a.jpg'', ''b.jpg'', ''c.jpg''])
    in hd lines \<in> set lines
     \<and> shown_current (hd lines) = 1
     \<and> shown_eta (hd lines) = Some 6
     \<and> (10 :: real) \<le> 10 + 3 * real (shown_current (hd lines))
     \<and> (0 :: real) \<le> 6)"
proof -
  let ?lines = "snd (fingerprint_phase (\<lambda>p. Inr (length p) :: py_error + nat)
                       (remaining 10 (\<lambda>i. 10 + 3 * real i) (length [''a.jpg'', ''b.jpg'', ''c.jpg'']))
                       [''a.jpg'', ''b.jpg'', ''c.jpg''])"
  note T = eta_of_progress_lines [of "\<lambda>p. Inr (length p) :: py_error + nat" 10 "\<lambda>i. 10 + 3 * real i"
      "[''a.jpg'', ''b.jpg'', ''c.jpg'']"]
  have cur: "map shown_current ?lines = [1 ..< Suc (length [''a.jpg'', ''b.jpg'', ''c.jpg''])]"
    using T by (rule conjunct1)
  then have ne: "?lines \<noteq> []" by auto
  then have mem: "hd ?lines \<in> set ?lines" by simp
  have one: "shown_current (hd ?lines) = 1"
    using cur ne by (cases ?lines) (simp_all add: upt_rec)
  note L = T [THEN conjunct2, THEN bspec, OF mem]
  have "shown_eta (hd ?lines) = Some ((10 + 3 * real (shown_current (hd ?lines)) - 10)
            / real (shown_current (hd ?lines))
            * real (length [''a.jpg'', ''b.jpg'', ''c.jpg''] - shown_current (hd ?lines)))"
    using L by blast
  then have eta: "shown_eta (hd ?lines) = Some 6" unfolding one by simp
  have mono: "(10 :: real) \<le> 10 + 3 * real (shown_current (hd ?lines))" by simp
  have "\<forall>e. shown_eta (hd ?lines) = Some e \<and> (10 :: real) \<le> 10 + 3 * real (shown_current (hd ?lines)) \<longrightarrow> 0 \<le> e"
    using L by blast
  then have pos: "(0 :: real) \<le> 6" using eta mono by blast
  show ?thesis unfolding Let_def by (intro conjI mem one eta mono pos)
qed

text \<open>
  C7 as stated fails in "never negative": \<open>time.time()\<close> is the wall clock, which can be
  set back while the program runs. With the reading 100 before the loop and 80 at the
  first of two turns, the ETA shown is \<open>(80 - 100) / 1 * (2 - 1) = -20\<close>.
\<close>

theorem eta_negative_counterexample:
  "shown_eta (hd (snd (fingerprint_phase (\<lambda>p. Inr (length p) :: py_error + nat)
                        (remaining 100 (\<lambda>i. 80) (length [''a.jpg'', ''b.jpg'']))
                        [''a.jpg'', ''b.jpg''])))
     = Some (- 20)"
  by (simp add: fingerprint_phase_lines upt_rec print_progress_bar_counters remaining_def)

section \<open>Properties of the command line\<close>

lemma two_arguments: "length argv = 2 \<longleftrightarrow> (\<exists>prog folder. argv = [prog, folder])"
  by (auto simp: length_Suc_conv numeral_2_eq_2)

lemma four_arguments: "length argv = 4 \<longleftrightarrow> (\<exists>prog folder flag dest. argv = [prog, folder, flag, dest])"
proof -
  have "length argv = 4 \<longleftrightarrow> length argv = Suc (Suc (Suc (Suc 0)))" by arith
  also have "\<dots> \<longleftrightarrow> (\<exists>prog folder flag dest. argv = [prog, folder, flag, dest])"
    by (auto simp: length_Suc_conv)
  finally show ?thesis .
qed

lemma main_usage:
  "usage_printed (main os_walk phash_of str_of eta_at argv w)
     \<longleftrightarrow> \<not> ((\<exists>prog folder. argv = [prog, folder]) \<or> (\<exists>prog folder dest. argv = [prog, folder, ''-m'', dest]))"
proof -
  have "usage_printed (main os_walk phash_of str_of eta_at argv w)
      \<longleftrightarrow> \<not> (length argv = 2 \<or> (length argv = 4 \<and> argv ! 2 = ''-m''))"
    by (auto simp: main_def Let_def)
  also have "\<dots> \<longleftrightarrow> \<not> ((\<exists>prog folder. argv = [prog, folder]) \<or> (\<exists>prog folder dest. argv = [prog, folder, ''-m'', dest]))"
    unfolding two_arguments four_arguments by auto
  finally show ?thesis .
qed

text \<open>
  C9. The usage text is printed exactly when the argument vector is neither
  \<open>[prog, folder]\<close> nor \<open>[prog, folder, "-m", destination]\<close>; then the exit status is 1
  and \<open>compare_images\<close> is not called. The two accepted shapes run \<open>compare_images\<close> on
  the folder, without and with the destination; a run ends with status 0 exactly when
  it returns without an exception.
\<close>

theorem main_argument_shapes:
  "(usage_printed (main os_walk phash_of str_of eta_at argv w)
      \<longleftrightarrow> \<not> ((\<exists>prog folder. argv = [prog, folder]) \<or> (\<exists>prog folder dest. argv = [prog, folder, ''-m'', dest])))
   \<and> (usage_printed (main os_walk phash_of str_of eta_at argv w)
        \<longrightarrow> exit_status (main os_walk phash_of str_of eta_at argv w) = 1
          \<and> ran (main os_walk phash_of str_of eta_at argv w) = None)
   \<and> (\<forall>prog folder. argv = [prog, folder]
        \<longrightarrow> ran (main os_walk phash_of str_of eta_at argv w)
            = Some (compare_images os_walk phash_of str_of eta_at folder None w))
   \<and> (\<forall>prog folder dest. argv = [prog, folder, ''-m'', dest]
        \<longrightarrow> ran (main os_walk phash_of str_of eta_at argv w)
            = Some (compare_images os_walk phash_of str_of eta_at folder (Some dest) w))
   \<and> (\<forall>r. ran (main os_walk phash_of str_of eta_at argv w) = Some r
        \<longrightarrow> (exit_status (main os_walk phash_of str_of eta_at argv w) = 0 \<longleftrightarrow> raised r = None))"
proof -
  have b: "usage_printed (main os_walk phash_of str_of eta_at argv w)
        \<longrightarrow> exit_status (main os_walk phash_of str_of eta_at argv w) = 1
          \<and> ran (main os_walk phash_of str_of eta_at argv w) = None"
    by (simp add: main_def Let_def)
  have c: "\<forall>prog folder. argv = [prog, folder]
        \<longrightarrow> ran (main os_walk phash_of str_of eta_at argv w)
            = Some (compare_images os_walk phash_of str_of eta_at folder None w)"
    by (simp add: main_def Let_def)
  have d: "\<forall>prog folder dest. argv = [prog, folder, ''-m'', dest]
        \<longrightarrow> ran (main os_walk phash_of str_of eta_at argv w)
            = Some (compare_images os_walk phash_of str_of eta_at folder (Some dest) w)"
    by (simp add: main_def Let_def)
  have e: "\<forall>r. ran (main os_walk phash_of str_of eta_at argv w) = Some r
        \<longrightarrow> (exit_status (main os_walk phash_of str_of eta_at argv w) = 0 \<longleftrightarrow> raised r = None)"
    by (simp add: main_def Let_def)
  show ?thesis by (intro conjI main_usage b c d e)
qed

theorem main_argument_shapes_witness:
  "usage_printed (main (\<lambda>f. [(f, [], [''a.jpg''])]) (\<lambda>p. Inr (length p) :: py_error + nat) (\<lambda>n. replicate n CHR ''f'') (\<lambda>i :: nat. i)
      [''prog''] \<lparr>entries = [], locked = [], name_max = 255, moves = []\<rparr>)
   \<and> exit_status (main (\<lambda>f. [(f, [], [''a.jpg''])]) (\<lambda>p. Inr (length p) :: py_error + nat) (\<lambda>n. replicate n CHR ''f'') (\<lambda>i :: nat. i)
      [''prog''] \<lparr>entries = [], locked = [], name_max = 255, moves = []\<rparr>) = 1
   \<and> ran (main (\<lambda>f. [(f, [], [''a.jpg''])]) (\<lambda>p. Inr (length p) :: py_error + nat) (\<lambda>n. replicate n CHR ''f'') (\<lambda>i :: nat. i)
      [''prog'', ''pics''] \<lparr>entries = [], locked = [], name_max = 255, moves = []\<rparr>)
     = Some (compare_images (\<lambda>f. [(f, [], [''a.jpg''])]) (\<lambda>p. Inr (length p) :: py_error + nat) (\<lambda>n. replicate n CHR ''f'') (\<lambda>i :: nat. i)
          ''pics'' None \<lparr>entries = [], locked = [], name_max = 255, moves = []\<rparr>)
   \<and> ran (main (\<lambda>f. [(f, [], [''a.jpg''])]) (\<lambda>p. Inr (length p) :: py_error + nat) (\<lambda>n. replicate n CHR ''f'') (\<lambda>i :: nat. i)
      [''prog'', ''pics'', ''-m'', ''out''] \<lparr>entries = [], locked = [], name_max = 255, moves = []\<rparr>)
     = Some (compare_images (\<lambda>f. [(f, [], [''a.jpg''])]) (\<lambda>p. Inr (length p) :: py_error + nat) (\<lambda>n. replicate n CHR ''f'') (\<lambda>i :: nat. i)
          ''pics'' (Some ''out'') \<lparr>entries = [], locked = [], name_max = 255, moves = []\<rparr>)
   \<and> exit_status (main (\<lambda>f. [(f, [], [''a.jpg''])]) (\<lambda>p. Inr (length p) :: py_error + nat) (\<lambda>n. replicate n CHR ''f'') (\<lambda>i :: nat. i)
      [''prog'', ''pics''] \<lparr>entries = [], locked = [], name_max = 255, moves = []\<rparr>) = 0"
proof -
  let ?walk = "\<lambda>f :: path. [(f, [] :: string list, [''a.jpg''])]"
  let ?phash = "\<lambda>p :: path. Inr (length p) :: py_error + nat"
  let ?str = "\<lambda>n. replicate n CHR ''f''"
  let ?eta = "\<lambda>i :: nat. i"
  let ?w = "\<lparr>entries = [], locked = [], name_max = 255, moves = []\<rparr>"
  note U = main_argument_shapes [of ?walk ?phash ?str ?eta "[''prog'']" ?w]
  note A = main_argument_shapes [of ?walk ?phash ?str ?eta "[''prog'', ''pics'']" ?w]
  note B = main_argument_shapes [of ?walk ?phash ?str ?eta "[''prog'', ''pics'', ''-m'', ''out'']" ?w]
  have u: "usage_printed (main ?walk ?phash ?str ?eta [''prog''] ?w)" using U by simp
  then have u1: "exit_status (main ?walk ?phash ?str ?eta [''prog''] ?w) = 1" using U by blast
  have a: "ran (main ?walk ?phash ?str ?eta [''prog'', ''pics''] ?w)
      = Some (compare_images ?walk ?phash ?str ?eta ''pics'' None ?w)" using A by blast
  have b: "ran (main ?walk ?phash ?str ?eta [''prog'', ''pics'', ''-m'', ''out''] ?w)
      = Some (compare_images ?walk ?phash ?str ?eta ''pics'' (Some ''out'') ?w)" using B by blast
  have "raised (compare_images ?walk ?phash ?str ?eta ''pics'' None ?w) = None"
    by (simp add: compare_images_def move_phase_def split_beta Let_def)
  then have z: "exit_status (main ?walk ?phash ?str ?eta [''prog'', ''pics''] ?w) = 0"
    using A a by blast
  show ?thesis by (intro conjI u u1 a b z)
qed

section \<open>Properties of the relocation\<close>

subsection \<open>The destination name\<close>

lemma dest_loop_spec:
  "\<not> path_exists w (dest_loop w d base ext dest i)
   \<and> (\<not> path_exists w dest \<longrightarrow> dest_loop w d base ext dest i = dest)
   \<and> (path_exists w dest \<longrightarrow>
        (\<exists>k\<ge>i. dest_loop w d base ext dest i = numbered d base ext k
              \<and> (\<forall>j. i \<le> j \<and> j < k \<longrightarrow> path_exists w (numbered d base ext j))))"
proof (induction w d base ext dest i rule: dest_loop.induct)
  case (1 w d base ext dest i)
  show ?case
  proof (cases "path_exists w dest")
    case False
    then show ?thesis by (simp add: dest_loop.simps)
  next
    case True
    let ?next = "numbered d base ext i"
    let ?r = "dest_loop w d base ext ?next (Suc i)"
    have unfold: "dest_loop w d base ext dest i = ?r"
      using True by (subst dest_loop.simps) simp
    note IH = "1.IH" [OF True]
    show ?thesis
    proof (cases "path_exists w ?next")
      case False
      then have "?r = ?next" using IH by blast
      moreover have "\<forall>j. i \<le> j \<and> j < i \<longrightarrow> path_exists w (numbered d base ext j)"
        by (blast dest: leD)
      ultimately show ?thesis using True False unfold by (metis order_refl)
    next
      case next_used: True
      then obtain k where k: "Suc i \<le> k" "?r = numbered d base ext k"
          "\<forall>j. Suc i \<le> j \<and> j < k \<longrightarrow> path_exists w (numbered d base ext j)"
        using IH by blast
      have "\<forall>j. i \<le> j \<and> j < k \<longrightarrow> path_exists w (numbered d base ext j)"
      proof (intro allI impI)
        fix j assume "i \<le> j \<and> j < k"
        then have "j = i \<or> (Suc i \<le> j \<and> j < k)" by arith
        then show "path_exists w (numbered d base ext j)" using next_used k(3) by blast
      qed
      moreover have "i \<le> k" using k(1) by simp
      moreover have "\<not> path_exists w ?r" using IH by blast
      ultimately show ?thesis using True unfold k(2) by metis
    qed
  qed
qed

lemma free_dest_unused: "\<not> path_exists w (free_dest w src dir)"
  by (simp add: free_dest_def Let_def split_beta dest_loop_spec)

subsection \<open>The file system operations\<close>

lemma dict_delete_map_of: "map_of (dict_delete k d) p = (if p = k then None else map_of d p)"
  by (induction d) (auto simp: dict_delete_def)

lemma rename_entries:
  "map_of (entries (rename src dst nd w)) p =
     (if p = dst then Some nd else if p = src then None else map_of (entries w) p)"
  by (simp add: rename_def dict_store_map_of dict_delete_map_of)

lemma rename_other [simp]:
  "locked (rename src dst nd w) = locked w"
  "name_max (rename src dst nd w) = name_max w"
  "moves (rename src dst nd w) = moves w @ [(src, dst)]"
  by (simp_all add: rename_def)

lemma shutil_move_fresh:
  assumes "\<not> path_exists w dst"
  shows "shutil_move src dst w =
     (case map_of (entries w) src of
        None \<Rightarrow> (Some FileNotFoundError, w)
      | Some nd \<Rightarrow> if \<not> name_fits w dst then (Some OSError, w)
                   else if src \<in> set (locked w)
                   then (Some PermissionError, w\<lparr>entries := dict_store dst nd (entries w)\<rparr>)
                   else (None, rename src dst nd w))"
  using assms by (simp add: shutil_move_def move_file_def path_exists_def split: option.splits)

lemma is_file_exists: "is_file w p \<Longrightarrow> path_exists w p"
  by (auto simp: is_file_def path_exists_def split: option.splits node.splits)

lemma makedirs_entries:
  "\<exists>made. entries (snd (makedirs d w)) = entries w @ map (\<lambda>a. (a, Directory 0)) made
      \<and> set made \<subseteq> set (missing_dirs w d)
      \<and> (fst (makedirs d w) = None \<and> \<not> path_exists w d \<longrightarrow> d \<in> set made)"
proof (cases "d = [] \<or> (\<exists>a \<in> set (ancestors d). is_file w a) \<or> is_file w d")
  case True
  then have "entries (snd (makedirs d w)) = entries w @ map (\<lambda>a. (a, Directory 0)) []"
    and "fst (makedirs d w) \<noteq> None"
    by (auto simp: makedirs_def)
  then show ?thesis by (intro exI [of _ "[]"]) simp
next
  case False
  let ?made = "takeWhile (\<lambda>a. name_fits w a \<and> a \<notin> set (locked w)) (missing_dirs w d)"
  have e: "entries (snd (makedirs d w)) = entries w @ map (\<lambda>a. (a, Directory 0)) ?made"
    using False by (simp add: makedirs_def Let_def)
  have ok: "fst (makedirs d w) = None \<longleftrightarrow> ?made = missing_dirs w d"
    using False by (simp add: makedirs_def Let_def)
  have sub: "set ?made \<subseteq> set (missing_dirs w d)" by (auto dest: set_takeWhileD)
  have "\<not> path_exists w d \<longrightarrow> d \<in> set (missing_dirs w d)" by (simp add: missing_dirs_def)
  then have "fst (makedirs d w) = None \<and> \<not> path_exists w d \<longrightarrow> d \<in> set ?made"
    using ok by metis
  then show ?thesis using e sub by blast
qed

lemma makedirs_keeps:
  "path_exists w p \<Longrightarrow> map_of (entries (snd (makedirs d w))) p = map_of (entries w) p"
proof -
  assume p: "path_exists w p"
  obtain made where "entries (snd (makedirs d w)) = entries w @ map (\<lambda>a. (a, Directory 0)) made"
    using makedirs_entries [of d w] by blast
  then show ?thesis using p by (auto simp: path_exists_def map_add_def split: option.splits)
qed

lemma makedirs_other [simp]:
  "locked (snd (makedirs d w)) = locked w"
  "name_max (snd (makedirs d w)) = name_max w"
  "moves (snd (makedirs d w)) = moves w"
  by (simp_all add: makedirs_def Let_def)

lemma name_fits_makedirs [simp]: "name_fits (snd (makedirs d w)) p = name_fits w p"
  by (simp add: name_fits_def)

lemma makedirs_grows: "path_exists w p \<Longrightarrow> path_exists (snd (makedirs d w)) p"
  using makedirs_keeps [of w p d] by (simp add: path_exists_def)

lemma makedirs_adds:
  "path_exists (snd (makedirs d w)) q \<Longrightarrow> path_exists w q \<or> q \<in> set (ancestors d @ [d])"
proof -
  assume q: "path_exists (snd (makedirs d w)) q"
  obtain made where m: "entries (snd (makedirs d w)) = entries w @ map (\<lambda>a. (a, Directory 0)) made"
      "set made \<subseteq> set (missing_dirs w d)"
    using makedirs_entries [of d w] by blast
  have "map_of (entries w @ map (\<lambda>a. (a, Directory 0)) made) q \<noteq> None"
    using q unfolding path_exists_def m(1) .
  then have "q \<in> fst ` set (entries w @ map (\<lambda>a. (a, Directory 0)) made)"
    by (metis map_of_eq_None_iff)
  then have "q \<in> fst ` set (entries w) \<or> q \<in> set made" by force
  moreover have "set (missing_dirs w d) \<subseteq> set (ancestors d @ [d])"
    by (auto simp: missing_dirs_def)
  moreover have "q \<in> fst ` set (entries w) \<Longrightarrow> path_exists w q"
    by (simp add: path_exists_def map_of_eq_None_iff)
  ultimately show ?thesis using m(2) by blast
qed

lemma makedirs_makes:
  "fst (makedirs d w) = None \<Longrightarrow> \<exists>n. map_of (entries (snd (makedirs d w))) d = Some (Directory n)"
proof -
  assume ok: "fst (makedirs d w) = None"
  then have nf: "\<not> is_file w d" by (auto simp: makedirs_def split: if_splits)
  show ?thesis
  proof (cases "path_exists w d")
    case True
    then obtain nd where "map_of (entries w) d = Some nd" by (auto simp: path_exists_def)
    then obtain n where "map_of (entries w) d = Some (Directory n)"
      using nf by (cases nd) (auto simp: is_file_def)
    then show ?thesis using makedirs_keeps [OF True, of d] by simp
  next
    case False
    obtain made where m: "entries (snd (makedirs d w)) = entries w @ map (\<lambda>a. (a, Directory 0)) made"
        "d \<in> set made"
      using makedirs_entries [of d w] ok False by blast
    have "map_of (map (\<lambda>a. (a, Directory 0)) made) d = Some (Directory 0)"
      using m(2) by (induction made) auto
    then show ?thesis using False unfolding m(1) by (simp add: path_exists_def map_add_def)
  qed
qed

lemma makedirs_sources:
  "fst (makedirs d w) = None \<Longrightarrow> is_file w p \<Longrightarrow> p \<notin> set (ancestors d @ [d])"
  by (auto simp: makedirs_def split: if_splits)

lemma move_duplicate_unfold:
  "move_duplicate src dir w =
     (if fst (makedirs dir w) \<noteq> None then makedirs dir w
      else shutil_move src (free_dest (snd (makedirs dir w)) src dir) (snd (makedirs dir w)))"
  by (cases "makedirs dir w") (auto simp: move_duplicate_def)

lemma move_duplicate_result:
  "move_duplicate src dir w =
     (let w1 = snd (makedirs dir w) in
      if fst (makedirs dir w) \<noteq> None then makedirs dir w
      else case map_of (entries w1) src of
             None \<Rightarrow> (Some FileNotFoundError, w1)
           | Some nd \<Rightarrow> if \<not> name_fits w (free_dest w1 src dir) then (Some OSError, w1)
                        else if src \<in> set (locked w)
                        then (Some PermissionError,
                              w1\<lparr>entries := dict_store (free_dest w1 src dir) nd (entries w1)\<rparr>)
                        else (None, rename src (free_dest w1 src dir) nd w1))"
  unfolding move_duplicate_unfold Let_def
  by (simp add: shutil_move_fresh [OF free_dest_unused] split: option.splits)

lemma free_dest_name:
  "(\<not> path_exists w (path_join dir (basename src)) \<longrightarrow> free_dest w src dir = path_join dir (basename src))
   \<and> (path_exists w (path_join dir (basename src)) \<longrightarrow>
        (\<exists>k\<ge>1. free_dest w src dir
                 = path_join dir (fst (splitext (basename src)) @ ''_'' @ str_nat k @ snd (splitext (basename src)))
              \<and> (\<forall>j. 1 \<le> j \<and> j < k \<longrightarrow>
                    path_exists w (path_join dir
                      (fst (splitext (basename src)) @ ''_'' @ str_nat j @ snd (splitext (basename src)))))))"
  using dest_loop_spec [of w dir "fst (splitext (basename src))" "snd (splitext (basename src))"
      "path_join dir (basename src)" 1]
  by (simp add: free_dest_def Let_def split_beta numbered_def)

text \<open>
  C3. \<open>move_duplicate\<close> picks its destination among the names not in use once the
  quarantine directory exists: the source's base name inside the directory when that
  is unused, otherwise the base name with \<open>_k\<close> before the extension for the smallest
  \<open>k \<ge> 1\<close> whose name is unused (every smaller number is in use). The search always
  ends. The call succeeds exactly when the directory can be made, the source exists
  and can be moved, and the destination name is not too long for the file system; then
  the source is recorded as moved to that destination, arrives there, and every other
  path that existed before keeps its entry: nothing is overwritten.
\<close>

theorem move_duplicate_never_overwrites:
  "(let w1 = snd (makedirs duplicates_dir w);
        name = basename src_file;
        base = fst (splitext name);
        ext = snd (splitext name);
        dest = free_dest w1 src_file duplicates_dir;
        result = move_duplicate src_file duplicates_dir w
    in \<not> path_exists w1 dest
     \<and> (\<not> path_exists w1 (path_join duplicates_dir name) \<longrightarrow> dest = path_join duplicates_dir name)
     \<and> (path_exists w1 (path_join duplicates_dir name) \<longrightarrow>
          (\<exists>k\<ge>1. dest = path_join duplicates_dir (base @ ''_'' @ str_nat k @ ext)
                \<and> (\<forall>j. 1 \<le> j \<and> j < k \<longrightarrow>
                      path_exists w1 (path_join duplicates_dir (base @ ''_'' @ str_nat j @ ext)))))
     \<and> (is_file w src_file \<longrightarrow>
          (fst result = None \<longleftrightarrow>
             fst (makedirs duplicates_dir w) = None \<and> src_file \<notin> set (locked w)
           \<and> name_fits w dest)
        \<and> (fst result = None \<longrightarrow>
             moves (snd result) = moves w @ [(src_file, dest)]
           \<and> map_of (entries (snd result)) dest = map_of (entries w) src_file
           \<and> (\<forall>p. p \<noteq> src_file \<and> path_exists w p \<longrightarrow>
                 map_of (entries (snd result)) p = map_of (entries w) p))))"
proof -
  let ?w1 = "snd (makedirs duplicates_dir w)"
  let ?dest = "free_dest ?w1 src_file duplicates_dir"
  let ?result = "move_duplicate src_file duplicates_dir w"
  have unused: "\<not> path_exists ?w1 ?dest" by (rule free_dest_unused)
  note name = free_dest_name [of ?w1 duplicates_dir src_file]
  have ok: "fst ?result = None \<longleftrightarrow>
      fst (makedirs duplicates_dir w) = None \<and> path_exists ?w1 src_file \<and> src_file \<notin> set (locked w)
      \<and> name_fits w ?dest"
    by (auto simp: move_duplicate_result Let_def path_exists_def split: option.splits)
  have effect: "fst ?result = None \<longrightarrow>
          moves (snd ?result) = moves w @ [(src_file, ?dest)]
        \<and> map_of (entries (snd ?result)) ?dest = map_of (entries ?w1) src_file
        \<and> (\<forall>p. p \<noteq> src_file \<and> path_exists w p \<longrightarrow>
              map_of (entries (snd ?result)) p = map_of (entries w) p)"
  proof
    assume r: "fst ?result = None"
    then have mk: "fst (makedirs duplicates_dir w) = None" and "path_exists ?w1 src_file"
      and unlocked: "src_file \<notin> set (locked w)" and fits: "name_fits w ?dest" using ok by simp_all
    then obtain nd where nd: "map_of (entries ?w1) src_file = Some nd" by (auto simp: path_exists_def)
    have res: "?result = (None, rename src_file ?dest nd ?w1)"
      using mk nd unlocked fits by (simp add: move_duplicate_result Let_def)
    have "\<forall>p. p \<noteq> src_file \<and> path_exists w p \<longrightarrow>
        map_of (entries (rename src_file ?dest nd ?w1)) p = map_of (entries w) p"
    proof (intro allI impI)
      fix p assume p: "p \<noteq> src_file \<and> path_exists w p"
      then have "path_exists ?w1 p" by (simp add: makedirs_grows)
      then have "p \<noteq> ?dest" using unused by auto
      then show "map_of (entries (rename src_file ?dest nd ?w1)) p = map_of (entries w) p"
        using p by (simp add: rename_entries makedirs_keeps)
    qed
    then show "moves (snd ?result) = moves w @ [(src_file, ?dest)]
        \<and> map_of (entries (snd ?result)) ?dest = map_of (entries ?w1) src_file
        \<and> (\<forall>p. p \<noteq> src_file \<and> path_exists w p \<longrightarrow>
              map_of (entries (snd ?result)) p = map_of (entries w) p)"
      unfolding res using nd by (simp add: rename_entries)
  qed
  have on_file: "is_file w src_file \<longrightarrow>
          (fst ?result = None \<longleftrightarrow>
             fst (makedirs duplicates_dir w) = None \<and> src_file \<notin> set (locked w)
           \<and> name_fits w ?dest)
        \<and> (fst ?result = None \<longrightarrow>
             moves (snd ?result) = moves w @ [(src_file, ?dest)]
           \<and> map_of (entries (snd ?result)) ?dest = map_of (entries w) src_file
           \<and> (\<forall>p. p \<noteq> src_file \<and> path_exists w p \<longrightarrow>
                 map_of (entries (snd ?result)) p = map_of (entries w) p))"
  proof
    assume "is_file w src_file"
    then have ex: "path_exists w src_file" by (rule is_file_exists)
    then have ex1: "path_exists ?w1 src_file" by (rule makedirs_grows)
    have same: "map_of (entries ?w1) src_file = map_of (entries w) src_file"
      using ex by (rule makedirs_keeps)
    show "(fst ?result = None \<longleftrightarrow>
             fst (makedirs duplicates_dir w) = None \<and> src_file \<notin> set (locked w)
           \<and> name_fits w ?dest)
        \<and> (fst ?result = None \<longrightarrow>
             moves (snd ?result) = moves w @ [(src_file, ?dest)]
           \<and> map_of (entries (snd ?result)) ?dest = map_of (entries w) src_file
           \<and> (\<forall>p. p \<noteq> src_file \<and> path_exists w p \<longrightarrow>
                 map_of (entries (snd ?result)) p = map_of (entries w) p))"
      using ok effect ex1 unfolding same by simp
  qed
  show ?thesis unfolding Let_def
    using unused name on_file by (intro conjI) blast+
qed

theorem move_duplicate_never_overwrites_witness:
  "path_exists
      \<lparr>entries = [(''pics/a.jpg'', File 10), (''out'', Directory 0), (''out/duplicates'', Directory 0),
           (''out/duplicates/a.jpg'', File 7), (''out/duplicates/a_1.jpg'', File 7)], locked = [], name_max = 255, moves = []\<rparr>
      (path_join ''out/duplicates'' (basename ''pics/a.jpg''))
   \<and> free_dest
      \<lparr>entries = [(''pics/a.jpg'', File 10), (''out'', Directory 0), (''out/duplicates'', Directory 0),
           (''out/duplicates/a.jpg'', File 7), (''out/duplicates/a_1.jpg'', File 7)], locked = [], name_max = 255, moves = []\<rparr>
      ''pics/a.jpg'' ''out/duplicates'' = ''out/duplicates/a_2.jpg''
   \<and> fst (move_duplicate ''pics/a.jpg'' ''out/duplicates''
      \<lparr>entries = [(''pics/a.jpg'', File 10), (''out'', Directory 0), (''out/duplicates'', Directory 0),
           (''out/duplicates/a.jpg'', File 7), (''out/duplicates/a_1.jpg'', File 7)], locked = [], name_max = 255, moves = []\<rparr>) = None
   \<and> moves (snd (move_duplicate ''pics/a.jpg'' ''out/duplicates''
      \<lparr>entries = [(''pics/a.jpg'', File 10), (''out'', Directory 0), (''out/duplicates'', Directory 0),
           (''out/duplicates/a.jpg'', File 7), (''out/duplicates/a_1.jpg'', File 7)], locked = [], name_max = 255, moves = []\<rparr>))
       = [(''pics/a.jpg'', ''out/duplicates/a_2.jpg'')]
   \<and> map_of (entries (snd (move_duplicate ''pics/a.jpg'' ''out/duplicates''
      \<lparr>entries = [(''pics/a.jpg'', File 10), (''out'', Directory 0), (''out/duplicates'', Directory 0),
           (''out/duplicates/a.jpg'', File 7), (''out/duplicates/a_1.jpg'', File 7)], locked = [], name_max = 255, moves = []\<rparr>)))
       ''out/duplicates/a.jpg'' = Some (File 7)"
proof -
  let ?w = "\<lparr>entries = [(''pics/a.jpg'', File 10), (''out'', Directory 0), (''out/duplicates'', Directory 0),
           (''out/duplicates/a.jpg'', File 7), (''out/duplicates/a_1.jpg'', File 7)], locked = [], name_max = 255, moves = []\<rparr>"
  let ?r = "move_duplicate ''pics/a.jpg'' ''out/duplicates'' ?w"
  note T = move_duplicate_never_overwrites [of "''out/duplicates''" ?w "''pics/a.jpg''", unfolded Let_def]
  have mk: "snd (makedirs ''out/duplicates'' ?w) = ?w" by code_simp
  have h0: "path_exists ?w (path_join ''out/duplicates'' (basename ''pics/a.jpg''))" by code_simp
  have h1: "fst (makedirs ''out/duplicates'' ?w) = None" by code_simp
  have h2: "path_exists ?w ''pics/a.jpg''" by code_simp
  have h3: "''pics/a.jpg'' \<notin> set (locked ?w)" by simp
  have h6: "name_fits ?w (free_dest ?w ''pics/a.jpg'' ''out/duplicates'')" by code_simp
  have h4: "''out/duplicates/a.jpg'' \<noteq> ''pics/a.jpg'' \<and> path_exists ?w ''out/duplicates/a.jpg''" by code_simp
  have d: "free_dest ?w ''pics/a.jpg'' ''out/duplicates'' = ''out/duplicates/a_2.jpg''" by code_simp
  have h5: "is_file ?w ''pics/a.jpg''" by code_simp
  note F = T [THEN conjunct2, THEN conjunct2, THEN conjunct2, THEN mp, OF h5, unfolded mk]
  note D = F [THEN conjunct1]
  note E = F [THEN conjunct2]
  have ok: "fst ?r = None" using h1 h3 h6 by (simp only: D simp_thms)
  note E' = E [THEN mp, OF ok]
  have "map_of (entries (snd ?r)) ''out/duplicates/a.jpg'' = map_of (entries ?w) ''out/duplicates/a.jpg''"
    using E' [THEN conjunct2, THEN conjunct2, THEN spec, THEN mp, OF h4] .
  then have k: "map_of (entries (snd ?r)) ''out/duplicates/a.jpg'' = Some (File 7)" by simp
  have m: "moves (snd ?r) = [(''pics/a.jpg'', ''out/duplicates/a_2.jpg'')]"
    using E' [THEN conjunct1] unfolding d by simp
  show ?thesis by (intro conjI h0 d ok m k)
qed

section \<open>Properties of the move phase\<close>

text \<open>
  Vocabulary for the statements: the moves a step added to the record, a path that
  lies directly in a directory, and the path that line 116 selects as the original of
  a group (\<open>None\<close> when a size lookup raises), and the size of an existing path.
\<close>

definition new_moves :: "world \<Rightarrow> world \<Rightarrow> (path \<times> path) list" where
  "new_moves w w' = drop (length (moves w)) (moves w')"

definition in_directory :: "path \<Rightarrow> path \<Rightarrow> bool" where
  "in_directory d p = (p = path_join d (basename p))"

definition original_of :: "world \<Rightarrow> path list \<Rightarrow> path option" where
  "original_of w grp = (case py_max (getsize w) grp of Inr original \<Rightarrow> Some original | Inl e \<Rightarrow> None)"

definition size_of :: "world \<Rightarrow> path \<Rightarrow> nat" where
  "size_of w p = (case map_of (entries w) p of Some nd \<Rightarrow> st_size nd | None \<Rightarrow> 0)"

text \<open>The paths of a group that are not its original, in the order of the group.\<close>

definition others :: "world \<Rightarrow> path list \<Rightarrow> path list" where
  "others w g = [p \<leftarrow> g. Some p \<noteq> original_of w g]"

text \<open>
  \<open>relocated dir w ms w'\<close> collects what moves into the directory \<open>dir\<close> have done
  between the worlds \<open>w\<close> and \<open>w'\<close> when \<open>ms\<close> is their record: every source existed;
  every destination lies directly in \<open>dir\<close> and was a free name, or the name of an
  earlier source; every destination holds what its source held; a source whose name
  was not reused is gone; every path that was not a source is as before; nothing
  else has appeared except the directories made on the way to \<open>dir\<close>; no two moves
  have the same destination; and \<open>dir\<close> is a directory once a move has been made.
\<close>

definition relocated :: "path \<Rightarrow> world \<Rightarrow> (path \<times> path) list \<Rightarrow> world \<Rightarrow> bool" where
  "relocated dir w ms w' \<longleftrightarrow>
       moves w' = moves w @ ms
     \<and> locked w' = locked w
     \<and> (\<forall>p \<in> fst ` set ms. path_exists w p \<and> p \<notin> set (ancestors dir @ [dir]))
     \<and> (\<forall>d \<in> snd ` set ms. in_directory dir d \<and> (path_exists w d \<longrightarrow> d \<in> fst ` set ms))
     \<and> (\<forall>(p, d) \<in> set ms. map_of (entries w') d = map_of (entries w) p)
     \<and> (\<forall>p \<in> fst ` set ms. p \<notin> snd ` set ms \<longrightarrow> map_of (entries w') p = None)
     \<and> (\<forall>q. q \<notin> fst ` set ms \<and> path_exists w q \<longrightarrow> map_of (entries w') q = map_of (entries w) q)
     \<and> (\<forall>q. path_exists w' q \<longrightarrow>
            path_exists w q \<or> q \<in> snd ` set ms \<or> q \<in> set (ancestors dir @ [dir]))
     \<and> distinct (map snd ms)
     \<and> (ms \<noteq> [] \<longrightarrow> (\<exists>n. map_of (entries w') dir = Some (Directory n)))"

subsection \<open>\<open>max\<close> keeps the first of the largest\<close>

lemma max_loop_first:
  assumes "\<forall>x \<in> set xs. key x = Inr (f x)"
  shows "\<exists>r ys zs. max_loop key best (f best) xs = Inr r \<and> best # xs = ys @ r # zs
           \<and> (\<forall>y \<in> set ys. f y < f r) \<and> (\<forall>z \<in> set zs. f z \<le> f r)"
  using assms
proof (induction xs arbitrary: best)
  case Nil
  have "max_loop key best (f best) [] = Inr best \<and> [best] = [] @ best # []" by simp
  then show ?case by fastforce
next
  case (Cons x xs)
  have kx: "key x = Inr (f x)" using Cons.prems by simp
  have rest: "\<forall>x \<in> set xs. key x = Inr (f x)" using Cons.prems by simp
  show ?case
  proof (cases "f x > f best")
    case True
    from Cons.IH [OF rest, of x] obtain r ys zs where
      r: "max_loop key x (f x) xs = Inr r" "x # xs = ys @ r # zs"
         "\<forall>y \<in> set ys. f y < f r" "\<forall>z \<in> set zs. f z \<le> f r" by blast
    have "x \<in> set (ys @ r # zs)" using r(2) by (metis list.set_intros(1))
    then have "f x \<le> f r" using r(3,4) by (auto intro: less_imp_le)
    then have "f best < f r" using True by simp
    then have "\<forall>y \<in> set (best # ys). f y < f r" using r(3) by simp
    moreover have "best # x # xs = (best # ys) @ r # zs" using r(2) by simp
    moreover have "max_loop key best (f best) (x # xs) = Inr r" using True kx r(1) by simp
    ultimately show ?thesis using r(4) by blast
  next
    case False
    from Cons.IH [OF rest, of best] obtain r ys zs where
      r: "max_loop key best (f best) xs = Inr r" "best # xs = ys @ r # zs"
         "\<forall>y \<in> set ys. f y < f r" "\<forall>z \<in> set zs. f z \<le> f r" by blast
    have run: "max_loop key best (f best) (x # xs) = Inr r" using False kx r(1) by simp
    show ?thesis
    proof (cases ys)
      case Nil
      then have "best = r" "xs = zs" using r(2) by simp_all
      then have "best # x # xs = [] @ r # (x # zs)" "\<forall>z \<in> set (x # zs). f z \<le> f r"
        using False r(4) by simp_all
      then show ?thesis using run by (metis empty_iff list.set(1))
    next
      case (Cons b ys')
      then have b: "b = best" "xs = ys' @ r # zs" using r(2) by simp_all
      have "f best < f r" using r(3) Cons b(1) by simp
      then have "f x < f r" using False by simp
      then have "\<forall>y \<in> set (best # x # ys'). f y < f r" using r(3) Cons b(1) by simp
      moreover have "best # x # xs = (best # x # ys') @ r # zs" using b(2) by simp
      ultimately show ?thesis using run r(4) by blast
    qed
  qed
qed

lemma py_max_first:
  assumes "xs \<noteq> []" and "\<forall>x \<in> set xs. key x = Inr (f x)"
  shows "\<exists>r ys zs. py_max key xs = Inr r \<and> xs = ys @ r # zs
           \<and> (\<forall>y \<in> set ys. f y < f r) \<and> (\<forall>z \<in> set zs. f z \<le> f r)"
proof -
  obtain x rest where xs: "xs = x # rest" using assms(1) by (cases xs) auto
  have "py_max key xs = max_loop key x (f x) rest" using assms(2) by (simp add: py_max_def xs)
  moreover have "\<forall>y \<in> set rest. key y = Inr (f y)" using assms(2) xs by simp
  ultimately show ?thesis using max_loop_first [of rest key f x] xs by simp
qed

lemma max_loop_raises:
  "\<exists>x \<in> set xs. \<exists>e. key x = Inl e \<Longrightarrow> \<exists>e. max_loop key best best_key xs = Inl e"
proof (induction xs arbitrary: best best_key)
  case Nil
  then show ?case by simp
next
  case (Cons x xs)
  show ?case
  proof (cases "key x")
    case (Inl e)
    then show ?thesis by simp
  next
    case (Inr k)
    then have "\<exists>x \<in> set xs. \<exists>e. key x = Inl e" using Cons.prems by auto
    then show ?thesis using Cons.IH Inr by simp
  qed
qed

lemma py_max_raises:
  "\<exists>x \<in> set xs. \<exists>e. key x = Inl e \<Longrightarrow> \<exists>e. py_max key xs = Inl e"
proof (cases xs)
  case Nil
  then show ?thesis by (simp add: py_max_def)
next
  case (Cons x rest)
  assume a: "\<exists>x \<in> set xs. \<exists>e. key x = Inl e"
  show ?thesis
  proof (cases "key x")
    case (Inl e)
    then show ?thesis by (simp add: py_max_def Cons)
  next
    case (Inr k)
    then have "\<exists>x \<in> set rest. \<exists>e. key x = Inl e" using a Cons by auto
    then show ?thesis using max_loop_raises [of rest key x k] Inr by (simp add: py_max_def Cons)
  qed
qed

subsection \<open>Destinations lie in the quarantine directory\<close>

lemma basename_no_slash: "CHR ''/'' \<notin> set (basename p)"
  by (auto simp: basename_def dest: set_takeWhileD)

lemma basename_plain: "CHR ''/'' \<notin> set n \<Longrightarrow> basename n = n"
proof -
  assume "CHR ''/'' \<notin> set n"
  then have "takeWhile (\<lambda>c. c \<noteq> CHR ''/'') (rev n) = rev n" by (auto simp: takeWhile_eq_all_conv)
  then show ?thesis by (simp only: basename_def rev_rev_ident)
qed

lemma basename_after_slash: "CHR ''/'' \<notin> set n \<Longrightarrow> basename (pre @ CHR ''/'' # n) = n"
proof -
  assume "CHR ''/'' \<notin> set n"
  then have "takeWhile (\<lambda>c. c \<noteq> CHR ''/'') (rev n @ CHR ''/'' # rev pre) = rev n"
    by (auto simp: takeWhile_tail)
  moreover have "rev (pre @ CHR ''/'' # n) = rev n @ CHR ''/'' # rev pre" by simp
  ultimately show ?thesis by (simp only: basename_def rev_rev_ident)
qed

lemma basename_path_join:
  assumes "CHR ''/'' \<notin> set n"
  shows "basename (path_join d n) = n"
proof -
  have hd: "\<not> (n \<noteq> [] \<and> hd n = CHR ''/'')" using assms by (cases n) auto
  show ?thesis
  proof (cases "d = []")
    case True
    then have "path_join d n = n" using hd by (simp add: path_join_def)
    then show ?thesis using basename_plain [OF assms] by simp
  next
    case False
    then obtain d' c where d: "d = d' @ [c]" by (metis rev_exhaust)
    show ?thesis
    proof (cases "c = CHR ''/''")
      case True
      then have "path_join d n = d' @ CHR ''/'' # n" using hd d by (simp add: path_join_def)
      then show ?thesis using basename_after_slash [OF assms] by simp
    next
      case False
      then have "path_join d n = d @ CHR ''/'' # n" using hd d by (simp add: path_join_def)
      then show ?thesis using basename_after_slash [OF assms] by simp
    qed
  qed
qed

lemma in_directory_path_join: "CHR ''/'' \<notin> set n \<Longrightarrow> in_directory d (path_join d n)"
  by (simp add: in_directory_def basename_path_join)

lemma splitext_parts: "set (fst (splitext p)) \<union> set (snd (splitext p)) \<subseteq> set p"
  by (auto simp: splitext_def Let_def dest: in_set_takeD in_set_dropD)

lemma digit_char_no_slash: "d < 10 \<Longrightarrow> digit_char d \<noteq> CHR ''/''"
proof
  assume d: "d < 10" and "digit_char d = CHR ''/''"
  then have "(of_char (digit_char d) :: nat) = of_char CHR ''/''" by simp
  then have "(48 + d) mod 256 = 47" by (simp add: digit_char_def)
  then show False using d by simp
qed

lemma str_nat_no_slash: "CHR ''/'' \<notin> set (str_nat n)"
proof (induction n rule: str_nat.induct)
  case (1 n)
  show ?case
  proof (cases "n < 10")
    case True
    then show ?thesis using digit_char_no_slash [of n] by (auto simp: str_nat_small)
  next
    case False
    have "n mod 10 < 10" by simp
    then have "digit_char (n mod 10) \<noteq> CHR ''/''" by (rule digit_char_no_slash)
    then show ?thesis using "1.IH" [OF False] False by (auto simp: str_nat_large)
  qed
qed

lemma free_dest_in_directory: "in_directory dir (free_dest w src dir)"
proof -
  let ?name = "basename src"
  have parts: "CHR ''/'' \<notin> set (fst (splitext ?name))" "CHR ''/'' \<notin> set (snd (splitext ?name))"
    using splitext_parts [of ?name] basename_no_slash [of src] by auto
  have "\<And>k. CHR ''/'' \<notin> set (fst (splitext ?name) @ ''_'' @ str_nat k @ snd (splitext ?name))"
    using parts str_nat_no_slash by simp
  then have "\<And>k. in_directory dir (path_join dir (fst (splitext ?name) @ ''_'' @ str_nat k @ snd (splitext ?name)))"
    by (rule in_directory_path_join)
  moreover have "in_directory dir (path_join dir ?name)"
    using basename_no_slash by (rule in_directory_path_join)
  ultimately show ?thesis using free_dest_name [of w dir src] by (cases "path_exists w (path_join dir ?name)") auto
qed

lemma getsize_existing: "path_exists w p \<Longrightarrow> getsize w p = Inr (size_of w p)"
  by (auto simp: getsize_def size_of_def path_exists_def)

lemma max_loop_cong:
  "\<forall>x \<in> set xs. key x = key' x \<Longrightarrow> max_loop key best k xs = max_loop key' best k xs"
  by (induction xs arbitrary: best k) (auto split: sum.splits)

lemma py_max_cong: "\<forall>x \<in> set xs. key x = key' x \<Longrightarrow> py_max key xs = py_max key' xs"
  by (cases xs) (auto simp: py_max_def max_loop_cong split: sum.splits)

lemma original_of_cong:
  "\<forall>p \<in> set g. map_of (entries w') p = map_of (entries w) p \<Longrightarrow> original_of w' g = original_of w g"
proof -
  assume "\<forall>p \<in> set g. map_of (entries w') p = map_of (entries w) p"
  then have "\<forall>p \<in> set g. getsize w' p = getsize w p" by (simp add: getsize_def)
  then have "py_max (getsize w') g = py_max (getsize w) g" by (rule py_max_cong)
  then show ?thesis by (simp add: original_of_def)
qed

lemma groups_disjoint:
  assumes "distinct (concat gs)" and "g \<in> set gs" and "h \<in> set gs" and "p \<in> set g" and "p \<in> set h"
  shows "g = h"
  using assms by (induction gs) auto

lemma first_largest:
  assumes "g \<noteq> []" and "\<forall>p \<in> set g. path_exists w p"
  shows "\<exists>ys original zs. g = ys @ original # zs \<and> original_of w g = Some original
           \<and> (\<forall>y \<in> set ys. size_of w y < size_of w original)
           \<and> (\<forall>z \<in> set zs. size_of w z \<le> size_of w original)"
proof -
  have "\<forall>p \<in> set g. getsize w p = Inr (size_of w p)" using assms(2) by (simp add: getsize_existing)
  from py_max_first [OF assms(1) this] obtain r ys zs where
    "py_max (getsize w) g = Inr r" "g = ys @ r # zs"
    "\<forall>y \<in> set ys. size_of w y < size_of w r" "\<forall>z \<in> set zs. size_of w z \<le> size_of w r" by blast
  then show ?thesis by (auto simp: original_of_def)
qed

lemma new_moves_append: "moves w' = moves w @ ms \<Longrightarrow> new_moves w w' = ms"
  by (simp add: new_moves_def)

subsection \<open>The moves of a run that raised nothing\<close>

lemma relocated_Nil: "relocated dir w [] w"
  by (simp add: relocated_def)

lemma is_file_cong: "map_of (entries w') p = map_of (entries w) p \<Longrightarrow> is_file w' p = is_file w p"
  by (simp add: is_file_def)

lemma relocated_step:
  assumes run: "move_duplicate p dir w = (None, w')" and on_file: "is_file w p"
  shows "\<exists>d. relocated dir w [(p, d)] w'"
proof -
  let ?w1 = "snd (makedirs dir w)"
  let ?d = "free_dest ?w1 p dir"
  have ex: "path_exists w p" using on_file by (rule is_file_exists)
  have mk: "fst (makedirs dir w) = None"
    using run by (cases "fst (makedirs dir w)") (auto simp: move_duplicate_unfold)
  have same: "map_of (entries ?w1) p = map_of (entries w) p" using ex by (rule makedirs_keeps)
  then obtain nd where nd: "map_of (entries ?w1) p = Some nd" "map_of (entries w) p = Some nd"
    using ex by (auto simp: path_exists_def)
  have w': "w' = rename p ?d nd ?w1"
    using run mk nd(1) by (simp add: move_duplicate_result Let_def split: if_splits)
  have unused: "\<not> path_exists ?w1 ?d" by (rule free_dest_unused)
  have fresh: "\<not> path_exists w ?d" using unused makedirs_grows by blast
  have dp: "?d \<noteq> p" using fresh ex by auto
  have notdir: "p \<notin> set (ancestors dir @ [dir])" using mk on_file by (rule makedirs_sources)
  have keep: "\<forall>q. q \<notin> fst ` set [(p, ?d)] \<and> path_exists w q \<longrightarrow> map_of (entries w') q = map_of (entries w) q"
  proof (intro allI impI)
    fix q assume q: "q \<notin> fst ` set [(p, ?d)] \<and> path_exists w q"
    then have "q \<noteq> ?d" using fresh by auto
    then show "map_of (entries w') q = map_of (entries w) q"
      using q by (simp add: w' rename_entries makedirs_keeps)
  qed
  have appear: "\<forall>q. path_exists w' q \<longrightarrow>
            path_exists w q \<or> q \<in> snd ` set [(p, ?d)] \<or> q \<in> set (ancestors dir @ [dir])"
  proof (intro allI impI)
    fix q assume "path_exists w' q"
    then have "q = ?d \<or> path_exists ?w1 q"
      by (auto simp: w' path_exists_def rename_entries split: if_splits)
    then show "path_exists w q \<or> q \<in> snd ` set [(p, ?d)] \<or> q \<in> set (ancestors dir @ [dir])"
      using makedirs_adds [of dir w q] by auto
  qed
  have "relocated dir w [(p, ?d)] w'"
    unfolding relocated_def
  proof (intro conjI)
    show "moves w' = moves w @ [(p, ?d)]" by (simp add: w')
    show "locked w' = locked w" by (simp add: w')
    show "\<forall>p \<in> fst ` set [(p, ?d)]. path_exists w p \<and> p \<notin> set (ancestors dir @ [dir])"
      using ex notdir by simp
    show "\<forall>d \<in> snd ` set [(p, ?d)]. in_directory dir d \<and> (path_exists w d \<longrightarrow> d \<in> fst ` set [(p, ?d)])"
      using fresh free_dest_in_directory [of dir ?w1 p] by simp
    show "\<forall>(p, d) \<in> set [(p, ?d)]. map_of (entries w') d = map_of (entries w) p"
      using nd(2) by (simp add: w' rename_entries)
    show "\<forall>q \<in> fst ` set [(p, ?d)]. q \<notin> snd ` set [(p, ?d)] \<longrightarrow> map_of (entries w') q = None"
      using dp by (simp add: w' rename_entries)
    show "\<forall>q. q \<notin> fst ` set [(p, ?d)] \<and> path_exists w q \<longrightarrow> map_of (entries w') q = map_of (entries w) q"
      by (rule keep)
    show "\<forall>q. path_exists w' q \<longrightarrow>
            path_exists w q \<or> q \<in> snd ` set [(p, ?d)] \<or> q \<in> set (ancestors dir @ [dir])"
      by (rule appear)
    show "distinct (map snd [(p, ?d)])" by simp
    show "[(p, ?d)] \<noteq> [] \<longrightarrow> (\<exists>n. map_of (entries w') dir = Some (Directory n))"
    proof
      obtain n where n: "map_of (entries ?w1) dir = Some (Directory n)"
        using makedirs_makes [OF mk] by (elim exE)
      then have "path_exists ?w1 dir" by (simp add: path_exists_def)
      then have "dir \<noteq> ?d" using unused by auto
      moreover have "dir \<noteq> p" using notdir by auto
      ultimately have "map_of (entries w') dir = Some (Directory n)"
        using n by (simp add: w' rename_entries)
      then show "\<exists>n. map_of (entries w') dir = Some (Directory n)" by (rule exI)
    qed
  qed
  then show ?thesis by blast
qed

lemma relocated_append:
  assumes r1: "relocated dir w ms1 w1" and r2: "relocated dir w1 ms2 w'"
    and side: "\<forall>q \<in> fst ` set ms2. path_exists w q \<and> q \<notin> fst ` set ms1"
  shows "relocated dir w (ms1 @ ms2) w'"
proof -
  note a = r1 [unfolded relocated_def] and b = r2 [unfolded relocated_def]
  note a_moves = a [THEN conjunct1]
  note a_locked = a [THEN conjunct2, THEN conjunct1]
  note a_src = a [THEN conjunct2, THEN conjunct2, THEN conjunct1]
  note a_dst = a [THEN conjunct2, THEN conjunct2, THEN conjunct2, THEN conjunct1]
  note a_holds = a [THEN conjunct2, THEN conjunct2, THEN conjunct2, THEN conjunct2, THEN conjunct1]
  note a_gone = a [THEN conjunct2, THEN conjunct2, THEN conjunct2, THEN conjunct2, THEN conjunct2, THEN conjunct1]
  note a_keep = a [THEN conjunct2, THEN conjunct2, THEN conjunct2, THEN conjunct2, THEN conjunct2, THEN conjunct2, THEN conjunct1]
  note a_new = a [THEN conjunct2, THEN conjunct2, THEN conjunct2, THEN conjunct2, THEN conjunct2, THEN conjunct2, THEN conjunct2, THEN conjunct1]
  note a_apart = a [THEN conjunct2, THEN conjunct2, THEN conjunct2, THEN conjunct2, THEN conjunct2, THEN conjunct2, THEN conjunct2, THEN conjunct2, THEN conjunct1]
  note a_dir = a [THEN conjunct2, THEN conjunct2, THEN conjunct2, THEN conjunct2, THEN conjunct2, THEN conjunct2, THEN conjunct2, THEN conjunct2, THEN conjunct2]
  note b_moves = b [THEN conjunct1]
  note b_locked = b [THEN conjunct2, THEN conjunct1]
  note b_src = b [THEN conjunct2, THEN conjunct2, THEN conjunct1]
  note b_dst = b [THEN conjunct2, THEN conjunct2, THEN conjunct2, THEN conjunct1]
  note b_holds = b [THEN conjunct2, THEN conjunct2, THEN conjunct2, THEN conjunct2, THEN conjunct1]
  note b_gone = b [THEN conjunct2, THEN conjunct2, THEN conjunct2, THEN conjunct2, THEN conjunct2, THEN conjunct1]
  note b_keep = b [THEN conjunct2, THEN conjunct2, THEN conjunct2, THEN conjunct2, THEN conjunct2, THEN conjunct2, THEN conjunct1]
  note b_new = b [THEN conjunct2, THEN conjunct2, THEN conjunct2, THEN conjunct2, THEN conjunct2, THEN conjunct2, THEN conjunct2, THEN conjunct1]
  note b_apart = b [THEN conjunct2, THEN conjunct2, THEN conjunct2, THEN conjunct2, THEN conjunct2, THEN conjunct2, THEN conjunct2, THEN conjunct2, THEN conjunct1]
  note b_dir = b [THEN conjunct2, THEN conjunct2, THEN conjunct2, THEN conjunct2, THEN conjunct2, THEN conjunct2, THEN conjunct2, THEN conjunct2, THEN conjunct2]
  have same1: "\<And>q. q \<notin> fst ` set ms1 \<Longrightarrow> path_exists w q \<Longrightarrow> path_exists w1 q"
    using a_keep by (simp add: path_exists_def)
  show ?thesis unfolding relocated_def
  proof (intro conjI)
    show "moves w' = moves w @ ms1 @ ms2" using a_moves b_moves by simp
    show "locked w' = locked w" using a_locked b_locked by simp
    show "\<forall>p \<in> fst ` set (ms1 @ ms2). path_exists w p \<and> p \<notin> set (ancestors dir @ [dir])"
      using a_src b_src side by auto
    show "\<forall>d \<in> snd ` set (ms1 @ ms2). in_directory dir d \<and> (path_exists w d \<longrightarrow> d \<in> fst ` set (ms1 @ ms2))"
    proof
      fix d assume "d \<in> snd ` set (ms1 @ ms2)"
      then consider "d \<in> snd ` set ms1" | "d \<in> snd ` set ms2" by auto
      then show "in_directory dir d \<and> (path_exists w d \<longrightarrow> d \<in> fst ` set (ms1 @ ms2))"
      proof cases
        case 1
        then show ?thesis using a_dst by auto
      next
        case 2
        then have dir: "in_directory dir d" and reuse: "path_exists w1 d \<longrightarrow> d \<in> fst ` set ms2"
          using b_dst by auto
        have "path_exists w d \<longrightarrow> d \<in> fst ` set (ms1 @ ms2)"
        proof
          assume e: "path_exists w d"
          show "d \<in> fst ` set (ms1 @ ms2)"
          proof (cases "d \<in> fst ` set ms1")
            case True
            then show ?thesis by auto
          next
            case False
            then have "path_exists w1 d" using e by (rule same1)
            then show ?thesis using reuse by auto
          qed
        qed
        then show ?thesis using dir by simp
      qed
    qed
    show "\<forall>(p, d) \<in> set (ms1 @ ms2). map_of (entries w') d = map_of (entries w) p"
    proof (clarify)
      fix p d assume "(p, d) \<in> set (ms1 @ ms2)"
      then consider "(p, d) \<in> set ms1" | "(p, d) \<in> set ms2" by auto
      then show "map_of (entries w') d = map_of (entries w) p"
      proof cases
        case 1
        then have h: "map_of (entries w1) d = map_of (entries w) p" using a_holds by auto
        have "p \<in> fst ` set ms1" using 1 by force
        then have "path_exists w p" using a_src by auto
        then have ex1: "path_exists w1 d" using h by (simp add: path_exists_def)
        have "d \<notin> fst ` set ms2"
        proof
          assume d2: "d \<in> fst ` set ms2"
          then have "path_exists w d" "d \<notin> fst ` set ms1" using side by auto
          moreover have "d \<in> snd ` set ms1" using 1 by force
          ultimately show False using a_dst by auto
        qed
        then have "map_of (entries w') d = map_of (entries w1) d" using ex1 b_keep by simp
        then show ?thesis using h by simp
      next
        case 2
        then have h: "map_of (entries w') d = map_of (entries w1) p" using b_holds by auto
        have "p \<in> fst ` set ms2" using 2 by force
        then have "path_exists w p" "p \<notin> fst ` set ms1" using side by auto
        then have "map_of (entries w1) p = map_of (entries w) p" using a_keep by simp
        then show ?thesis using h by simp
      qed
    qed
    show "\<forall>p \<in> fst ` set (ms1 @ ms2). p \<notin> snd ` set (ms1 @ ms2) \<longrightarrow> map_of (entries w') p = None"
    proof (intro ballI impI)
      fix p assume p: "p \<in> fst ` set (ms1 @ ms2)" and nd: "p \<notin> snd ` set (ms1 @ ms2)"
      then have nd1: "p \<notin> snd ` set ms1" and nd2: "p \<notin> snd ` set ms2" by auto
      show "map_of (entries w') p = None"
      proof (cases "p \<in> fst ` set ms2")
        case True
        then show ?thesis using b_gone [THEN bspec, of p] nd2 by simp
      next
        case False
        then have p1: "p \<in> fst ` set ms1" using p by auto
        then have "map_of (entries w1) p = None" using a_gone [THEN bspec, of p] nd1 by simp
        then have "\<not> path_exists w1 p" by (simp add: path_exists_def)
        moreover have "p \<notin> set (ancestors dir @ [dir])" using p1 a_src by auto
        ultimately have "\<not> path_exists w' p" using b_new nd2 by blast
        then show ?thesis by (simp add: path_exists_def)
      qed
    qed
    show "\<forall>q. q \<notin> fst ` set (ms1 @ ms2) \<and> path_exists w q \<longrightarrow> map_of (entries w') q = map_of (entries w) q"
    proof (intro allI impI)
      fix q assume q: "q \<notin> fst ` set (ms1 @ ms2) \<and> path_exists w q"
      then have q1: "q \<notin> fst ` set ms1" and q2: "q \<notin> fst ` set ms2" by auto
      have s: "map_of (entries w1) q = map_of (entries w) q" using q q1 a_keep by simp
      then have "path_exists w1 q" using q by (simp add: path_exists_def)
      then show "map_of (entries w') q = map_of (entries w) q" using q2 b_keep s by simp
    qed
    show "\<forall>q. path_exists w' q \<longrightarrow>
            path_exists w q \<or> q \<in> snd ` set (ms1 @ ms2) \<or> q \<in> set (ancestors dir @ [dir])"
      using a_new b_new by auto
    have "snd ` set ms1 \<inter> snd ` set ms2 = {}"
    proof (rule ccontr)
      assume "snd ` set ms1 \<inter> snd ` set ms2 \<noteq> {}"
      then obtain d where d1: "d \<in> snd ` set ms1" and d2: "d \<in> snd ` set ms2" by auto
      from d1 obtain p where p: "(p, d) \<in> set ms1" by auto
      then have h: "map_of (entries w1) d = map_of (entries w) p" using a_holds by auto
      have "p \<in> fst ` set ms1" using p by force
      then have "path_exists w p" using a_src by auto
      then have "path_exists w1 d" using h by (simp add: path_exists_def)
      then have "d \<in> fst ` set ms2" using b_dst d2 by auto
      then have "path_exists w d" "d \<notin> fst ` set ms1" using side by auto
      then show False using a_dst d1 by auto
    qed
    then show "distinct (map snd (ms1 @ ms2))" using a_apart b_apart by simp
    show "ms1 @ ms2 \<noteq> [] \<longrightarrow> (\<exists>n. map_of (entries w') dir = Some (Directory n))"
    proof (cases "ms2 = []")
      case False
      then show ?thesis using b_dir by simp
    next
      case True
      show ?thesis
      proof
        assume "ms1 @ ms2 \<noteq> []"
        then have "ms1 \<noteq> []" using True by simp
        then obtain n where n: "map_of (entries w1) dir = Some (Directory n)" using a_dir by auto
        then have "path_exists w1 dir" by (simp add: path_exists_def)
        then have "map_of (entries w') dir = map_of (entries w1) dir"
          using b_keep [THEN spec, of dir] True by simp
        then show "\<exists>n. map_of (entries w') dir = Some (Directory n)" using n by simp
      qed
    qed
  qed
qed

lemma relocated_sources_kept:
  assumes r: "relocated dir w ms w'" and q: "q \<notin> fst ` set ms" and e: "path_exists w q"
  shows "map_of (entries w') q = map_of (entries w) q"
  using r [unfolded relocated_def, THEN conjunct2, THEN conjunct2, THEN conjunct2, THEN conjunct2,
      THEN conjunct2, THEN conjunct2, THEN conjunct1, THEN spec, of q] q e by simp

lemma move_others_success:
  assumes "move_others original dir ps w = (None, w')" and "distinct ps"
    and "\<forall>p \<in> set ps. p \<noteq> original \<longrightarrow> is_file w p"
  shows "\<exists>ms. relocated dir w ms w' \<and> map fst ms = [p \<leftarrow> ps. p \<noteq> original]"
  using assms
proof (induction ps arbitrary: w)
  case Nil
  then have "w' = w" by simp
  then have "relocated dir w [] w' \<and> map fst [] = [p \<leftarrow> []. p \<noteq> original]"
    by (simp add: relocated_Nil)
  then show ?case by (rule exI [of _ "[]"])
next
  case (Cons p ps)
  have dist: "distinct ps" and fresh: "p \<notin> set ps" using Cons.prems(2) by simp_all
  show ?case
  proof (cases "p = original")
    case True
    then have run: "move_others original dir ps w = (None, w')" using Cons.prems(1) by simp
    have files: "\<forall>q \<in> set ps. q \<noteq> original \<longrightarrow> is_file w q" using Cons.prems(3) by simp
    from Cons.IH [OF run dist files] obtain ms where
      ms: "relocated dir w ms w'" "map fst ms = [q \<leftarrow> ps. q \<noteq> original]" by (elim exE conjE)
    have "relocated dir w ms w' \<and> map fst ms = [q \<leftarrow> p # ps. q \<noteq> original]"
      using ms True by simp
    then show ?thesis by (rule exI [of _ ms])
  next
    case False
    obtain r w1 where step: "move_duplicate p dir w = (r, w1)" by (cases "move_duplicate p dir w")
    have r: "r = None" using Cons.prems(1) False step by (cases r) auto
    have run: "move_others original dir ps w1 = (None, w')"
      using Cons.prems(1) False step r by simp
    have pf: "is_file w p" using Cons.prems(3) False by simp
    from relocated_step [OF step [unfolded r] pf] obtain d where
      one: "relocated dir w [(p, d)] w1" by (elim exE)
    have files: "\<forall>q \<in> set ps. q \<noteq> original \<longrightarrow> is_file w1 q"
    proof (intro ballI impI)
      fix q assume q: "q \<in> set ps" "q \<noteq> original"
      then have f: "is_file w q" using Cons.prems(3) by simp
      have "q \<notin> fst ` set [(p, d)]" using q(1) fresh by auto
      then have "map_of (entries w1) q = map_of (entries w) q"
        using is_file_exists [OF f] one by (rule relocated_sources_kept [rotated])
      then show "is_file w1 q" using f by (simp add: is_file_def)
    qed
    from Cons.IH [OF run dist files] obtain ms where
      ms: "relocated dir w1 ms w'" "map fst ms = [q \<leftarrow> ps. q \<noteq> original]" by (elim exE conjE)
    have side: "\<forall>q \<in> fst ` set ms. path_exists w q \<and> q \<notin> fst ` set [(p, d)]"
    proof
      fix q assume "q \<in> fst ` set ms"
      then have "q \<in> set (map fst ms)" by simp
      then have q: "q \<in> set ps" "q \<noteq> original" unfolding ms(2) by simp_all
      then have "is_file w q" using Cons.prems(3) by simp
      then have "path_exists w q" by (rule is_file_exists)
      moreover have "q \<noteq> p" using q(1) fresh by auto
      ultimately show "path_exists w q \<and> q \<notin> fst ` set [(p, d)]" by simp
    qed
    have all: "relocated dir w ([(p, d)] @ ms) w'" using one ms(1) side by (rule relocated_append)
    have "relocated dir w ((p, d) # ms) w' \<and> map fst ((p, d) # ms) = [q \<leftarrow> p # ps. q \<noteq> original]"
      using all ms(2) False by simp
    then show ?thesis by (rule exI [of _ "(p, d) # ms"])
  qed
qed

lemma move_group_success:
  assumes "move_group dir g w = (None, w')" and "distinct g" and "\<forall>p \<in> set g. is_file w p"
  shows "\<exists>original ms. original_of w g = Some original \<and> relocated dir w ms w'
           \<and> map fst ms = [p \<leftarrow> g. p \<noteq> original]"
proof -
  obtain original where o: "py_max (getsize w) g = Inr original"
    using assms(1) by (cases "py_max (getsize w) g") (auto simp: move_group_def)
  then have run: "move_others original dir g w = (None, w')"
    using assms(1) by (simp add: move_group_def)
  have files: "\<forall>p \<in> set g. p \<noteq> original \<longrightarrow> is_file w p" using assms(3) by simp
  from move_others_success [OF run assms(2) files] obtain ms where
    ms: "relocated dir w ms w'" "map fst ms = [p \<leftarrow> g. p \<noteq> original]" by (elim exE conjE)
  have "original_of w g = Some original" using o by (simp add: original_of_def)
  then have "original_of w g = Some original \<and> relocated dir w ms w'
           \<and> map fst ms = [p \<leftarrow> g. p \<noteq> original]" using ms by simp
  then show ?thesis by (intro exI)
qed

lemma move_groups_success:
  assumes "move_groups dir gs w = (None, w')" and "distinct (concat gs)"
    and "\<forall>p \<in> set (concat gs). is_file w p"
  shows "\<exists>ms. relocated dir w ms w' \<and> map fst ms = concat (map (others w) gs)"
  using assms
proof (induction gs arbitrary: w)
  case Nil
  then have "w' = w" by simp
  then have "relocated dir w [] w' \<and> map fst [] = concat (map (others w) [])"
    by (simp add: relocated_Nil)
  then show ?case by (rule exI [of _ "[]"])
next
  case (Cons g gs)
  have dg: "distinct g" and dgs: "distinct (concat gs)"
    and apart: "set g \<inter> set (concat gs) = {}" using Cons.prems(2) by simp_all
  obtain r w1 where step: "move_group dir g w = (r, w1)" by (cases "move_group dir g w")
  have r: "r = None" using Cons.prems(1) step by (cases r) auto
  have run: "move_groups dir gs w1 = (None, w')" using Cons.prems(1) step r by simp
  have gf: "\<forall>p \<in> set g. is_file w p" using Cons.prems(3) by simp
  from move_group_success [OF step [unfolded r] dg gf] obtain original ms1 where
    first: "original_of w g = Some original" "relocated dir w ms1 w1"
      "map fst ms1 = [p \<leftarrow> g. p \<noteq> original]" by (elim exE conjE)
  have src1: "fst ` set ms1 \<subseteq> set g"
  proof -
    have "fst ` set ms1 = set (map fst ms1)" by simp
    then show ?thesis unfolding first(3) by auto
  qed
  have same: "\<forall>q \<in> set (concat gs). map_of (entries w1) q = map_of (entries w) q"
  proof
    fix q assume q: "q \<in> set (concat gs)"
    then have "q \<notin> set g" using apart by auto
    then have "q \<notin> fst ` set ms1" using src1 by auto
    moreover have "path_exists w q" using q Cons.prems(3) by (simp add: is_file_exists)
    ultimately show "map_of (entries w1) q = map_of (entries w) q"
      using first(2) by (rule relocated_sources_kept [rotated])
  qed
  have files: "\<forall>q \<in> set (concat gs). is_file w1 q"
  proof
    fix q assume q: "q \<in> set (concat gs)"
    have "map_of (entries w1) q = map_of (entries w) q" using same q by (rule bspec)
    then have "is_file w1 q = is_file w q" by (rule is_file_cong)
    then show "is_file w1 q" using q Cons.prems(3) by simp
  qed
  from Cons.IH [OF run dgs files] obtain ms2 where
    rest: "relocated dir w1 ms2 w'" "map fst ms2 = concat (map (others w1) gs)" by (elim exE conjE)
  have o: "\<forall>h \<in> set gs. others w1 h = others w h"
  proof
    fix h assume h: "h \<in> set gs"
    then have "\<forall>p \<in> set h. map_of (entries w1) p = map_of (entries w) p" using same by auto
    then have "original_of w1 h = original_of w h" by (rule original_of_cong)
    then show "others w1 h = others w h" by (simp add: others_def)
  qed
  then have o': "map (others w1) gs = map (others w) gs" by simp
  have src2: "fst ` set ms2 \<subseteq> set (concat gs)"
  proof -
    have "fst ` set ms2 = set (map fst ms2)" by simp
    then show ?thesis unfolding rest(2) by (auto simp: others_def)
  qed
  have side: "\<forall>q \<in> fst ` set ms2. path_exists w q \<and> q \<notin> fst ` set ms1"
  proof
    fix q assume "q \<in> fst ` set ms2"
    then have q: "q \<in> set (concat gs)" using src2 by auto
    then have "path_exists w q" using Cons.prems(3) by (simp add: is_file_exists)
    moreover have "q \<notin> fst ` set ms1" using q apart src1 by auto
    ultimately show "path_exists w q \<and> q \<notin> fst ` set ms1" by simp
  qed
  have all: "relocated dir w (ms1 @ ms2) w'" using first(2) rest(1) side by (rule relocated_append)
  have "[p \<leftarrow> g. p \<noteq> original] = others w g" using first(1) by (simp add: others_def)
  then have "map fst (ms1 @ ms2) = concat (map (others w) (g # gs))"
    using first(3) rest(2) o' by simp
  then have "relocated dir w (ms1 @ ms2) w' \<and> map fst (ms1 @ ms2) = concat (map (others w) (g # gs))"
    using all by simp
  then show ?case by (rule exI [of _ "ms1 @ ms2"])
qed

lemma move_groups_nonempty:
  "move_groups dir gs w = (None, w') \<Longrightarrow> [] \<notin> set gs"
proof (induction gs arbitrary: w)
  case Nil
  then show ?case by simp
next
  case (Cons g gs)
  obtain r w1 where step: "move_group dir g w = (r, w1)" by (cases "move_group dir g w")
  have r: "r = None" using Cons.prems step by (cases r) auto
  have "g \<noteq> []" using step r by (auto simp: move_group_def py_max_def)
  moreover have "move_groups dir gs w1 = (None, w')" using Cons.prems step r by simp
  ultimately show ?case using Cons.IH by auto
qed

subsection \<open>A move phase that raised nothing\<close>

lemma move_phase_relocated:
  assumes "move_path \<noteq> []" and "distinct (concat gs)" and "\<forall>p \<in> set (concat gs). is_file w p"
    and "move_phase (Some move_path) gs w = (None, w')"
  shows "\<exists>ms. relocated (path_join move_path ''duplicates'') w ms w'
            \<and> map fst ms = concat (map (others w) gs)"
proof -
  have "move_groups (path_join move_path ''duplicates'') gs w = (None, w')"
    using assms(1,4) by (simp add: move_phase_def)
  then show ?thesis using assms(2,3) by (rule move_groups_success)
qed

lemma move_phase_nonempty:
  assumes "move_path \<noteq> []" and "move_phase (Some move_path) gs w = (None, w')"
  shows "[] \<notin> set gs"
proof -
  have "move_groups (path_join move_path ''duplicates'') gs w = (None, w')"
    using assms by (simp add: move_phase_def)
  then show ?thesis by (rule move_groups_nonempty)
qed

lemma relocated_new_moves: "relocated dir w ms w' \<Longrightarrow> new_moves w w' = ms"
  unfolding relocated_def by (simp add: new_moves_append)

lemma relocated_distinct: "relocated dir w ms w' \<Longrightarrow> distinct (map snd ms)"
  unfolding relocated_def by (elim conjE)

lemma relocated_directory:
  "relocated dir w ms w' \<Longrightarrow> ms \<noteq> [] \<Longrightarrow> \<exists>n. map_of (entries w') dir = Some (Directory n)"
  unfolding relocated_def by (elim conjE) simp

lemma relocated_moved:
  assumes r: "relocated dir w ms w'" and p: "p \<in> fst ` set ms"
  shows "(\<exists>d. (p, d) \<in> set ms \<and> in_directory dir d \<and> map_of (entries w') d = map_of (entries w) p)
       \<and> (map_of (entries w') p = None \<or> p \<in> snd ` set ms)"
proof -
  note a = r [unfolded relocated_def]
  note a_dst = a [THEN conjunct2, THEN conjunct2, THEN conjunct2, THEN conjunct1]
  note a_holds = a [THEN conjunct2, THEN conjunct2, THEN conjunct2, THEN conjunct2, THEN conjunct1]
  note a_gone = a [THEN conjunct2, THEN conjunct2, THEN conjunct2, THEN conjunct2, THEN conjunct2, THEN conjunct1]
  obtain d where d: "(p, d) \<in> set ms" using p by auto
  then have "d \<in> snd ` set ms" by force
  then have "in_directory dir d" using a_dst by blast
  moreover have "map_of (entries w') d = map_of (entries w) p" using a_holds d by auto
  ultimately have one: "\<exists>d. (p, d) \<in> set ms \<and> in_directory dir d
      \<and> map_of (entries w') d = map_of (entries w) p" using d by blast
  have "map_of (entries w') p = None \<or> p \<in> snd ` set ms" using a_gone [THEN bspec, OF p] by blast
  then show ?thesis using one by simp
qed

lemma group_outcome:
  assumes rel: "relocated dir w ms w'" and src: "map fst ms = concat (map (others w) gs)"
    and apart: "distinct (concat gs)" and files: "\<forall>p \<in> set (concat gs). is_file w p"
    and g: "g \<in> set gs" and o: "original_of w g = Some original" and og: "original \<in> set g"
  shows "original \<notin> fst ` set ms
       \<and> map_of (entries w') original = map_of (entries w) original
       \<and> (\<forall>p \<in> set g. p \<noteq> original \<longrightarrow>
            (\<exists>d. (p, d) \<in> set ms \<and> in_directory dir d \<and> map_of (entries w') d = map_of (entries w) p)
          \<and> (map_of (entries w') p = None \<or> p \<in> snd ` set ms))"
proof -
  have sources: "fst ` set ms = (\<Union>h \<in> set gs. set (others w h))"
  proof -
    have "fst ` set ms = set (map fst ms)" by simp
    then show ?thesis unfolding src by simp
  qed
  have kept: "original \<notin> fst ` set ms"
  proof
    assume "original \<in> fst ` set ms"
    then obtain h where h: "h \<in> set gs" "original \<in> set (others w h)" unfolding sources by blast
    then have oh: "original \<in> set h" "Some original \<noteq> original_of w h" by (simp_all add: others_def)
    have "g = h" using apart g h(1) og oh(1) by (rule groups_disjoint)
    then show False using o oh(2) by simp
  qed
  have "is_file w original" using files g og by auto
  then have "path_exists w original" by (rule is_file_exists)
  then have same: "map_of (entries w') original = map_of (entries w) original"
    using rel kept by (rule relocated_sources_kept [rotated 2])
  have moved: "\<forall>p \<in> set g. p \<noteq> original \<longrightarrow>
            (\<exists>d. (p, d) \<in> set ms \<and> in_directory dir d \<and> map_of (entries w') d = map_of (entries w) p)
          \<and> (map_of (entries w') p = None \<or> p \<in> snd ` set ms)"
  proof (intro ballI impI)
    fix p assume p: "p \<in> set g" "p \<noteq> original"
    then have "p \<in> set (others w g)" using o by (auto simp: others_def)
    then have "p \<in> fst ` set ms" unfolding sources using g by blast
    with rel show "(\<exists>d. (p, d) \<in> set ms \<and> in_directory dir d \<and> map_of (entries w') d = map_of (entries w) p)
          \<and> (map_of (entries w') p = None \<or> p \<in> snd ` set ms)" by (rule relocated_moved)
  qed
  show ?thesis by (intro conjI kept same moved)
qed

text \<open>
  C2, as amended. Take a move phase with a non-empty destination root that returns
  without an exception, on groups of regular files in which no path occurs twice (as
  \<open>group_exact_duplicates\<close> returns them). Then for every group exactly one of its
  paths is kept: the original selected by line 116, whose byte size is greatest in the
  group. It is not the source of any move and its entry is as before. Every other path
  of the group has been moved: it is recorded with a destination that lies directly in
  the quarantine directory and now holds what the source held, and the source itself is
  gone, unless a later duplicate of the same name was moved to the name it had freed
  (a source that lay in the quarantine directory already). No two moves have the same
  destination, and once a file has been moved the quarantine directory is a directory.
\<close>

theorem move_phase_keeps_one_per_group:
  assumes "move_path \<noteq> []"
    and "distinct (concat exact_groups)"
    and "\<forall>p \<in> set (concat exact_groups). is_file w p"
    and "move_phase (Some move_path) exact_groups w = (None, w')"
  shows "distinct (map snd (new_moves w w'))
       \<and> (new_moves w w' \<noteq> [] \<longrightarrow>
            (\<exists>n. map_of (entries w') (path_join move_path ''duplicates'') = Some (Directory n)))
       \<and> (\<forall>g \<in> set exact_groups. \<exists>original \<in> set g.
             py_max (getsize w) g = Inr original
           \<and> (\<forall>p \<in> set g. getsize w p = Inr (size_of w p) \<and> size_of w p \<le> size_of w original)
           \<and> original \<notin> fst ` set (new_moves w w')
           \<and> map_of (entries w') original = map_of (entries w) original
           \<and> (\<forall>p \<in> set g. p \<noteq> original \<longrightarrow>
                (\<exists>d. (p, d) \<in> set (new_moves w w')
                    \<and> in_directory (path_join move_path ''duplicates'') d
                    \<and> map_of (entries w') d = map_of (entries w) p)
              \<and> (map_of (entries w') p = None \<or> p \<in> snd ` set (new_moves w w'))))"
proof -
  let ?dir = "path_join move_path ''duplicates''"
  from move_phase_relocated [OF assms] obtain ms where
    rel: "relocated ?dir w ms w'" and src: "map fst ms = concat (map (others w) exact_groups)"
    by (elim exE conjE)
  have nm: "new_moves w w' = ms" using rel by (rule relocated_new_moves)
  have nonempty: "[] \<notin> set exact_groups" using assms(1,4) by (rule move_phase_nonempty)
  have a: "distinct (map snd (new_moves w w'))" unfolding nm using rel by (rule relocated_distinct)
  have b: "new_moves w w' \<noteq> [] \<longrightarrow> (\<exists>n. map_of (entries w') ?dir = Some (Directory n))"
    unfolding nm using rel by (blast intro: relocated_directory)
  have c: "\<forall>g \<in> set exact_groups. \<exists>original \<in> set g.
             py_max (getsize w) g = Inr original
           \<and> (\<forall>p \<in> set g. getsize w p = Inr (size_of w p) \<and> size_of w p \<le> size_of w original)
           \<and> original \<notin> fst ` set (new_moves w w')
           \<and> map_of (entries w') original = map_of (entries w) original
           \<and> (\<forall>p \<in> set g. p \<noteq> original \<longrightarrow>
                (\<exists>d. (p, d) \<in> set (new_moves w w') \<and> in_directory ?dir d
                    \<and> map_of (entries w') d = map_of (entries w) p)
              \<and> (map_of (entries w') p = None \<or> p \<in> snd ` set (new_moves w w')))"
  proof
    fix g assume g: "g \<in> set exact_groups"
    then have ne: "g \<noteq> []" using nonempty by auto
    have ex: "\<forall>p \<in> set g. path_exists w p" using assms(3) g by (auto intro: is_file_exists)
    from first_largest [OF ne ex] obtain ys original zs where
      f: "g = ys @ original # zs" "original_of w g = Some original"
         "\<forall>y \<in> set ys. size_of w y < size_of w original"
         "\<forall>z \<in> set zs. size_of w z \<le> size_of w original" by (elim exE conjE)
    have og: "original \<in> set g" using f(1) by simp
    have sizes: "\<forall>p \<in> set g. getsize w p = Inr (size_of w p) \<and> size_of w p \<le> size_of w original"
    proof
      fix p assume p: "p \<in> set g"
      then have "p \<in> set ys \<or> p = original \<or> p \<in> set zs" using f(1) by auto
      then have "size_of w p \<le> size_of w original" using f(3,4) by (auto intro: less_imp_le)
      moreover have "getsize w p = Inr (size_of w p)" using ex p by (simp add: getsize_existing)
      ultimately show "getsize w p = Inr (size_of w p) \<and> size_of w p \<le> size_of w original" by simp
    qed
    have sel: "py_max (getsize w) g = Inr original"
      using f(2) by (auto simp: original_of_def split: sum.splits)
    note out = group_outcome [OF rel src assms(2,3) g f(2) og, folded nm]
    have "py_max (getsize w) g = Inr original
           \<and> (\<forall>p \<in> set g. getsize w p = Inr (size_of w p) \<and> size_of w p \<le> size_of w original)
           \<and> original \<notin> fst ` set (new_moves w w')
           \<and> map_of (entries w') original = map_of (entries w) original
           \<and> (\<forall>p \<in> set g. p \<noteq> original \<longrightarrow>
                (\<exists>d. (p, d) \<in> set (new_moves w w') \<and> in_directory ?dir d
                    \<and> map_of (entries w') d = map_of (entries w) p)
              \<and> (map_of (entries w') p = None \<or> p \<in> snd ` set (new_moves w w')))"
      by (intro conjI sel sizes out [THEN conjunct1] out [THEN conjunct2, THEN conjunct1]
          out [THEN conjunct2, THEN conjunct2])
    then show "\<exists>original \<in> set g.
             py_max (getsize w) g = Inr original
           \<and> (\<forall>p \<in> set g. getsize w p = Inr (size_of w p) \<and> size_of w p \<le> size_of w original)
           \<and> original \<notin> fst ` set (new_moves w w')
           \<and> map_of (entries w') original = map_of (entries w) original
           \<and> (\<forall>p \<in> set g. p \<noteq> original \<longrightarrow>
                (\<exists>d. (p, d) \<in> set (new_moves w w') \<and> in_directory ?dir d
                    \<and> map_of (entries w') d = map_of (entries w) p)
              \<and> (map_of (entries w') p = None \<or> p \<in> snd ` set (new_moves w w')))"
      using og by (rule bexI)
  qed
  show ?thesis by (intro conjI a b c)
qed

theorem move_phase_keeps_one_per_group_witness:
  "(let w = \<lparr>entries = [(''p/a.jpg'', File 3), (''q/a.jpg'', File 8), (''r/a.jpg'', File 3)],
             locked = [], name_max = 255, moves = []\<rparr>;
        w' = \<lparr>entries = [(''q/a.jpg'', File 8), (''out'', Directory 0), (''out/duplicates'', Directory 0),
                (''out/duplicates/a.jpg'', File 3), (''out/duplicates/a_1.jpg'', File 3)],
              locked = [], name_max = 255,
              moves = [(''p/a.jpg'', ''out/duplicates/a.jpg''), (''r/a.jpg'', ''out/duplicates/a_1.jpg'')]\<rparr>;
        gs = [[''p/a.jpg'', ''q/a.jpg'', ''r/a.jpg'']]
    in ''out'' \<noteq> []
     \<and> distinct (concat gs)
     \<and> (\<forall>p \<in> set (concat gs). is_file w p)
     \<and> move_phase (Some ''out'') gs w = (None, w')
     \<and> (distinct (map snd (new_moves w w'))
       \<and> (new_moves w w' \<noteq> [] \<longrightarrow>
            (\<exists>n. map_of (entries w') (path_join ''out'' ''duplicates'') = Some (Directory n)))
       \<and> (\<forall>g \<in> set gs. \<exists>original \<in> set g.
             py_max (getsize w) g = Inr original
           \<and> (\<forall>p \<in> set g. getsize w p = Inr (size_of w p) \<and> size_of w p \<le> size_of w original)
           \<and> original \<notin> fst ` set (new_moves w w')
           \<and> map_of (entries w') original = map_of (entries w) original
           \<and> (\<forall>p \<in> set g. p \<noteq> original \<longrightarrow>
                (\<exists>d. (p, d) \<in> set (new_moves w w')
                    \<and> in_directory (path_join ''out'' ''duplicates'') d
                    \<and> map_of (entries w') d = map_of (entries w) p)
              \<and> (map_of (entries w') p = None \<or> p \<in> snd ` set (new_moves w w')))))
     \<and> py_max (getsize w) [''p/a.jpg'', ''q/a.jpg'', ''r/a.jpg''] = Inr ''q/a.jpg''
     \<and> new_moves w w' = [(''p/a.jpg'', ''out/duplicates/a.jpg''), (''r/a.jpg'', ''out/duplicates/a_1.jpg'')])"
proof -
  let ?w = "\<lparr>entries = [(''p/a.jpg'', File 3), (''q/a.jpg'', File 8), (''r/a.jpg'', File 3)],
             locked = [], name_max = 255, moves = []\<rparr>"
  let ?w' = "\<lparr>entries = [(''q/a.jpg'', File 8), (''out'', Directory 0), (''out/duplicates'', Directory 0),
                (''out/duplicates/a.jpg'', File 3), (''out/duplicates/a_1.jpg'', File 3)],
              locked = [], name_max = 255,
              moves = [(''p/a.jpg'', ''out/duplicates/a.jpg''), (''r/a.jpg'', ''out/duplicates/a_1.jpg'')]\<rparr>"
  let ?gs = "[[''p/a.jpg'', ''q/a.jpg'', ''r/a.jpg'']]"
  have h1: "''out'' \<noteq> []" by simp
  have h2: "distinct (concat ?gs)" by simp
  have h3: "\<forall>p \<in> set (concat ?gs). is_file ?w p" by (simp add: is_file_def)
  have h4: "move_phase (Some ''out'') ?gs ?w = (None, ?w')" by code_simp
  note c = move_phase_keeps_one_per_group [OF h1 h2 h3 h4]
  have v1: "py_max (getsize ?w) [''p/a.jpg'', ''q/a.jpg'', ''r/a.jpg''] = Inr ''q/a.jpg''" by code_simp
  have v2: "new_moves ?w ?w' = [(''p/a.jpg'', ''out/duplicates/a.jpg''), (''r/a.jpg'', ''out/duplicates/a_1.jpg'')]"
    by (simp add: new_moves_def)
  show ?thesis unfolding Let_def by (intro conjI h1 h2 h3 h4 c v1 v2)
qed

text \<open>
  C2 as stated fails, for it speaks of every quarantine root. With the empty string as
  root (\<open>-m ""\<close> on the command line) the test \<open>if move_path:\<close> of line 112 is false:
  the phase returns without moving anything and both paths of the group stay. With a
  root that is a regular file, \<open>os.makedirs\<close> raises in the first move and again both
  paths stay.
\<close>

theorem move_phase_root_counterexample:
  "move_phase (Some '''') [[''a.jpg'', ''b.jpg'']]
      \<lparr>entries = [(''a.jpg'', File 5), (''b.jpg'', File 5)], locked = [], name_max = 255, moves = []\<rparr>
     = (None, \<lparr>entries = [(''a.jpg'', File 5), (''b.jpg'', File 5)], locked = [], name_max = 255, moves = []\<rparr>)
   \<and> move_phase (Some ''out'') [[''a.jpg'', ''b.jpg'']]
      \<lparr>entries = [(''a.jpg'', File 5), (''b.jpg'', File 5), (''out'', File 0)],
        locked = [], name_max = 255, moves = []\<rparr>
     = (Some NotADirectoryError,
        \<lparr>entries = [(''a.jpg'', File 5), (''b.jpg'', File 5), (''out'', File 0)],
          locked = [], name_max = 255, moves = []\<rparr>)"
  by code_simp




subsection \<open>The loops when an operation fails\<close>

lemma move_groups_stop:
  "move_groups dir before w = (None, w1) \<Longrightarrow> move_group dir g w1 = (Some e, w2)
     \<Longrightarrow> move_groups dir (before @ g # later) w = (Some e, w2)"
proof (induction before arbitrary: w)
  case Nil
  then show ?case by simp
next
  case (Cons b before)
  obtain r wb where b: "move_group dir b w = (r, wb)" by (cases "move_group dir b w")
  then have "r = None" using Cons.prems(1) by (cases r) auto
  then show ?case using Cons b by simp
qed

lemma move_others_stop:
  "move_others original dir moved w = (None, w2) \<Longrightarrow> p \<noteq> original
     \<Longrightarrow> move_duplicate p dir w2 = (Some e, w3)
     \<Longrightarrow> move_others original dir (moved @ p # rest) w = (Some e, w3)"
proof (induction moved arbitrary: w)
  case Nil
  then show ?case by simp
next
  case (Cons q moved)
  show ?case
  proof (cases "q = original")
    case True
    then show ?thesis using Cons by simp
  next
    case False
    obtain r wq where q: "move_duplicate q dir w = (r, wq)" by (cases "move_duplicate q dir w")
    then have "r = None" using Cons.prems(1) False by (cases r) auto
    then show ?thesis using Cons q False by simp
  qed
qed

lemma move_group_lookup_fails:
  "\<exists>p \<in> set g. \<exists>e. getsize w p = Inl e \<Longrightarrow> \<exists>e. move_group dir g w = (Some e, w)"
proof -
  assume "\<exists>p \<in> set g. \<exists>e. getsize w p = Inl e"
  then have "\<exists>e. py_max (getsize w) g = Inl e" by (rule py_max_raises)
  then obtain e where "py_max (getsize w) g = Inl e" by (elim exE)
  then show ?thesis by (simp add: move_group_def)
qed

lemma move_duplicate_fails_moves: "move_duplicate p dir w = (Some e, w') \<Longrightarrow> moves w' = moves w"
proof -
  assume a: "move_duplicate p dir w = (Some e, w')"
  have "moves (snd (move_duplicate p dir w)) = moves w \<or> fst (move_duplicate p dir w) = None"
    using makedirs_other(3) [of dir w]
    by (auto simp: move_duplicate_result Let_def split: option.splits)
  then show ?thesis using a by simp
qed

lemma compare_images_outcome:
  "raised (compare_images os_walk phash_of str_of eta_at folder move_path w)
     = fst (move_phase move_path (found_groups (compare_images os_walk phash_of str_of eta_at folder move_path w)) w)
   \<and> final (compare_images os_walk phash_of str_of eta_at folder move_path w)
     = snd (move_phase move_path (found_groups (compare_images os_walk phash_of str_of eta_at folder move_path w)) w)"
  by (simp add: compare_images_def Let_def split_beta)

text \<open>
  C4, as amended. A failure in the move phase is not caught. When the groups before a
  group \<open>g\<close> have been processed and a size lookup for a path of \<open>g\<close> raises, the phase
  ends with an exception in the state reached before \<open>g\<close>: no path of \<open>g\<close> and no path
  of a later group is moved. When the move of a path \<open>p\<close> of \<open>g\<close> raises, the phase
  ends with that exception in the state of the failure: \<open>p\<close> is not recorded as moved,
  and the rest of \<open>g\<close> and the later groups are not processed. Moves completed before
  the failure stay, and the exception is the outcome of the whole run.
\<close>

theorem move_phase_failure_aborts:
  assumes "move_path \<noteq> []"
    and "move_groups (path_join move_path ''duplicates'') before w = (None, w1)"
  shows "((\<exists>p \<in> set g. \<exists>e. getsize w1 p = Inl e)
           \<longrightarrow> (\<exists>e. move_phase (Some move_path) (before @ g # later) w = (Some e, w1)))
       \<and> (\<forall>original moved p rest e w2 w3.
             g = moved @ p # rest \<and> original_of w1 g = Some original \<and> p \<noteq> original
           \<and> move_others original (path_join move_path ''duplicates'') moved w1 = (None, w2)
           \<and> move_duplicate p (path_join move_path ''duplicates'') w2 = (Some e, w3)
           \<longrightarrow> move_phase (Some move_path) (before @ g # later) w = (Some e, w3)
             \<and> moves w3 = moves w2)
       \<and> raised (compare_images os_walk phash_of str_of eta_at folder (Some move_path) w)
           = fst (move_phase (Some move_path)
                (found_groups (compare_images os_walk phash_of str_of eta_at folder (Some move_path) w)) w)"
proof -
  let ?dir = "path_join move_path ''duplicates''"
  have phase: "\<And>gs. move_phase (Some move_path) gs w = move_groups ?dir gs w"
    using assms(1) by (simp add: move_phase_def)
  have a: "(\<exists>p \<in> set g. \<exists>e. getsize w1 p = Inl e)
           \<longrightarrow> (\<exists>e. move_phase (Some move_path) (before @ g # later) w = (Some e, w1))"
  proof
    assume "\<exists>p \<in> set g. \<exists>e. getsize w1 p = Inl e"
    then have "\<exists>e. move_group ?dir g w1 = (Some e, w1)" by (rule move_group_lookup_fails)
    then obtain e where "move_group ?dir g w1 = (Some e, w1)" by (elim exE)
    then have "move_groups ?dir (before @ g # later) w = (Some e, w1)"
      using assms(2) by (rule move_groups_stop [rotated])
    then show "\<exists>e. move_phase (Some move_path) (before @ g # later) w = (Some e, w1)"
      unfolding phase by blast
  qed
  have b: "\<forall>original moved p rest e w2 w3.
             g = moved @ p # rest \<and> original_of w1 g = Some original \<and> p \<noteq> original
           \<and> move_others original ?dir moved w1 = (None, w2)
           \<and> move_duplicate p ?dir w2 = (Some e, w3)
           \<longrightarrow> move_phase (Some move_path) (before @ g # later) w = (Some e, w3)
             \<and> moves w3 = moves w2"
  proof (intro allI impI)
    fix original moved p rest e w2 w3
    assume h: "g = moved @ p # rest \<and> original_of w1 g = Some original \<and> p \<noteq> original
           \<and> move_others original ?dir moved w1 = (None, w2)
           \<and> move_duplicate p ?dir w2 = (Some e, w3)"
    then have "move_others original ?dir (moved @ p # rest) w1 = (Some e, w3)"
      using move_others_stop [of original ?dir moved w1 w2 p e w3 rest] by blast
    moreover have "py_max (getsize w1) g = Inr original"
      using h by (auto simp: original_of_def split: sum.splits)
    ultimately have "move_group ?dir g w1 = (Some e, w3)" using h by (simp add: move_group_def)
    then have "move_groups ?dir (before @ g # later) w = (Some e, w3)"
      using assms(2) by (rule move_groups_stop [rotated])
    moreover have "moves w3 = moves w2" using h move_duplicate_fails_moves [of p ?dir w2 e w3] by simp
    ultimately show "move_phase (Some move_path) (before @ g # later) w = (Some e, w3)
             \<and> moves w3 = moves w2" unfolding phase by simp
  qed
  show ?thesis by (intro conjI a b compare_images_outcome [THEN conjunct1])
qed

theorem move_phase_failure_aborts_witness:
  "(let w = \<lparr>entries = [(''a.jpg'', File 5), (''c.jpg'', File 3), (''d.jpg'', File 2)], locked = [], name_max = 255, moves = []\<rparr>;
        v = \<lparr>entries = [(''x.jpg'', File 9), (''y.jpg'', File 4), (''z.jpg'', File 4), (''out'', Directory 0),
               (''out/duplicates'', Directory 0)],
             locked = [''y.jpg''], name_max = 255, moves = []\<rparr>;
        v3 = \<lparr>entries = [(''x.jpg'', File 9), (''y.jpg'', File 4), (''z.jpg'', File 4), (''out'', Directory 0),
               (''out/duplicates'', Directory 0), (''out/duplicates/y.jpg'', File 4)],
             locked = [''y.jpg''], name_max = 255, moves = []\<rparr>
    in ''out'' \<noteq> []
     \<and> move_groups (path_join ''out'' ''duplicates'') [] w = (None, w)
     \<and> ''b.jpg'' \<in> set [''a.jpg'', ''b.jpg'']
     \<and> getsize w ''b.jpg'' = Inl FileNotFoundError
     \<and> (\<exists>e. move_phase (Some ''out'') ([] @ [''a.jpg'', ''b.jpg''] # [[''c.jpg'', ''d.jpg'']]) w = (Some e, w))
     \<and> move_groups (path_join ''out'' ''duplicates'') [] v = (None, v)
     \<and> original_of v [''x.jpg'', ''y.jpg'', ''z.jpg''] = Some ''x.jpg''
     \<and> move_others ''x.jpg'' (path_join ''out'' ''duplicates'') [''x.jpg''] v = (None, v)
     \<and> move_duplicate ''y.jpg'' (path_join ''out'' ''duplicates'') v = (Some PermissionError, v3)
     \<and> move_phase (Some ''out'') ([] @ [''x.jpg'', ''y.jpg'', ''z.jpg''] # []) v = (Some PermissionError, v3))"
proof -
  let ?w = "\<lparr>entries = [(''a.jpg'', File 5), (''c.jpg'', File 3), (''d.jpg'', File 2)], locked = [], name_max = 255, moves = []\<rparr>"
  let ?v = "\<lparr>entries = [(''x.jpg'', File 9), (''y.jpg'', File 4), (''z.jpg'', File 4), (''out'', Directory 0),
               (''out/duplicates'', Directory 0)],
             locked = [''y.jpg''], name_max = 255, moves = []\<rparr>"
  let ?v3 = "\<lparr>entries = [(''x.jpg'', File 9), (''y.jpg'', File 4), (''z.jpg'', File 4), (''out'', Directory 0),
               (''out/duplicates'', Directory 0), (''out/duplicates/y.jpg'', File 4)],
             locked = [''y.jpg''], name_max = 255, moves = []\<rparr>"
  let ?dir = "path_join ''out'' ''duplicates''"
  have h1: "''out'' \<noteq> []" by simp
  have h2: "move_groups ?dir [] ?w = (None, ?w)" by simp
  have h3: "''b.jpg'' \<in> set [''a.jpg'', ''b.jpg'']" by simp
  have h4: "getsize ?w ''b.jpg'' = Inl FileNotFoundError" by (simp add: getsize_def)
  have "\<exists>p \<in> set [''a.jpg'', ''b.jpg'']. \<exists>e. getsize ?w p = Inl e" using h3 h4 by blast
  with move_phase_failure_aborts [OF h1 h2, of "[''a.jpg'', ''b.jpg'']" "[[''c.jpg'', ''d.jpg'']]",
      THEN conjunct1]
  have c: "\<exists>e. move_phase (Some ''out'') ([] @ [''a.jpg'', ''b.jpg''] # [[''c.jpg'', ''d.jpg'']]) ?w = (Some e, ?w)"
    by (rule mp)
  have k2: "move_groups ?dir [] ?v = (None, ?v)" by simp
  have k3: "original_of ?v [''x.jpg'', ''y.jpg'', ''z.jpg''] = Some ''x.jpg''" by code_simp
  have k4: "move_others ''x.jpg'' ?dir [''x.jpg''] ?v = (None, ?v)" by simp
  have k5: "move_duplicate ''y.jpg'' ?dir ?v = (Some PermissionError, ?v3)" by code_simp
  have k6: "''y.jpg'' \<noteq> ''x.jpg''" by simp
  have pre: "[''x.jpg'', ''y.jpg'', ''z.jpg''] = [''x.jpg''] @ ''y.jpg'' # [''z.jpg'']
      \<and> original_of ?v [''x.jpg'', ''y.jpg'', ''z.jpg''] = Some ''x.jpg'' \<and> ''y.jpg'' \<noteq> ''x.jpg''
      \<and> move_others ''x.jpg'' ?dir [''x.jpg''] ?v = (None, ?v)
      \<and> move_duplicate ''y.jpg'' ?dir ?v = (Some PermissionError, ?v3)"
    using k3 k4 k5 k6 by simp
  note B = move_phase_failure_aborts [OF h1 k2, of "[''x.jpg'', ''y.jpg'', ''z.jpg'']" "[]",
      THEN conjunct2, THEN conjunct1, THEN spec, THEN spec, THEN spec, THEN spec, THEN spec, THEN spec,
      THEN spec, THEN mp, OF pre, THEN conjunct1]
  show ?thesis unfolding Let_def by (intro conjI h1 h2 h3 h4 c k2 k3 k4 k5 B)
qed

text \<open>
  C4 as stated fails. With \<open>b.jpg\<close> gone, the size lookup in the first group raises and
  the second group, whose files are in place, is never processed. With \<open>y.jpg\<close> locked,
  its move raises and \<open>z.jpg\<close>, next in the same group, is not moved.
\<close>

theorem move_phase_failure_counterexample:
  "move_phase (Some ''out'') [[''a.jpg'', ''b.jpg''], [''c.jpg'', ''d.jpg'']]
      \<lparr>entries = [(''a.jpg'', File 5), (''c.jpg'', File 3), (''d.jpg'', File 2)], locked = [], name_max = 255, moves = []\<rparr>
     = (Some FileNotFoundError,
        \<lparr>entries = [(''a.jpg'', File 5), (''c.jpg'', File 3), (''d.jpg'', File 2)], locked = [], name_max = 255, moves = []\<rparr>)
   \<and> fst (move_phase (Some ''out'') [[''x.jpg'', ''y.jpg'', ''z.jpg'']]
      \<lparr>entries = [(''x.jpg'', File 9), (''y.jpg'', File 4), (''z.jpg'', File 4)], locked = [''y.jpg''], name_max = 255, moves = []\<rparr>)
     = Some PermissionError
   \<and> moves (snd (move_phase (Some ''out'') [[''x.jpg'', ''y.jpg'', ''z.jpg'']]
      \<lparr>entries = [(''x.jpg'', File 9), (''y.jpg'', File 4), (''z.jpg'', File 4)], locked = [''y.jpg''], name_max = 255, moves = []\<rparr>))
     = []"
  by code_simp

end
